theory Spec2Isabelle
  imports Complex_Main
begin

section \<open>The file system the backup engine works on\<close>

text \<open>
  BackupBanana touches the file system through a handful of library calls only:
  \<^verbatim>\<open>os.walk\<close>, \<^verbatim>\<open>os.path.exists\<close>, \<^verbatim>\<open>os.path.getmtime\<close>, \<^verbatim>\<open>os.path.getsize\<close>,
  \<^verbatim>\<open>os.makedirs\<close> and \<^verbatim>\<open>shutil.copy2\<close>. The file system is a tree of named nodes; a
  path is the list of its components below the root directory. A regular file carries its
  modification time, its bytes and whether it may be opened for reading; a directory
  carries a modification time, whether it may be listed, and its entries. Symbolic links,
  write permissions and the advance of a directory's own timestamp are left out.
\<close>

type_synonym path = "string list"

datatype node =
    File (name: string) (mtime: int) (content: string) (readable: bool)
  | Dir (name: string) (mtime: int) (listable: bool) (entries: "node list")

datatype error =
    Exception string
  | FileNotFoundError path
  | NotADirectoryError path
  | IsADirectoryError path
  | PermissionError path
  | FileExistsError path
  | SameFileError path path
  | ZeroDivisionError
  | KeyError string

text \<open>A path printed as text, and \<^verbatim>\<open>str(e)\<close> of an exception.\<close>

definition pstr :: "path \<Rightarrow> string" where
  "pstr p = (if p = [] then ''/'' else concat (map (\<lambda>c. CHR ''/'' # c) p))"

fun str_error :: "error \<Rightarrow> string" where
  "str_error (Exception msg) = msg"
| "str_error (FileNotFoundError p) = ''[Errno 2] No such file or directory: '' @ pstr p"
| "str_error (NotADirectoryError p) = ''[Errno 20] Not a directory: '' @ pstr p"
| "str_error (IsADirectoryError p) = ''[Errno 21] Is a directory: '' @ pstr p"
| "str_error (PermissionError p) = ''[Errno 13] Permission denied: '' @ pstr p"
| "str_error (FileExistsError p) = ''[Errno 17] File exists: '' @ pstr p"
| "str_error (SameFileError p q) = pstr p @ '' and '' @ pstr q @ '' are the same file''"
| "str_error ZeroDivisionError = ''division by zero''"
| "str_error (KeyError k) = k"

fun lookup_entry :: "string \<Rightarrow> node list \<Rightarrow> node option" where
  "lookup_entry c [] = None"
| "lookup_entry c (e # es) = (if name e = c then Some e else lookup_entry c es)"

text \<open>
  Path resolution. The component \<^verbatim>\<open>.\<close> stays in the directory it is looked up in, so
  \<^verbatim>\<open>d/.\<close> resolves only when \<^verbatim>\<open>d\<close> is a directory.
\<close>

fun resolve :: "node \<Rightarrow> path \<Rightarrow> node option" where
  "resolve n [] = Some n"
| "resolve (File nm mt c r) (x # xs) = None"
| "resolve (Dir nm mt l es) (x # xs) =
     (if x = ''.'' then resolve (Dir nm mt l es) xs
      else case lookup_entry x es of None \<Rightarrow> None | Some e \<Rightarrow> resolve e xs)"

definition os_path_exists :: "node \<Rightarrow> path \<Rightarrow> bool" where
  "os_path_exists fs p = (resolve fs p \<noteq> None)"

definition os_path_isdir :: "node \<Rightarrow> path \<Rightarrow> bool" where
  "os_path_isdir fs p = (case resolve fs p of Some (Dir nm mt l es) \<Rightarrow> True | _ \<Rightarrow> False)"

definition os_path_getmtime :: "node \<Rightarrow> path \<Rightarrow> error + int" where
  "os_path_getmtime fs p =
     (case resolve fs p of None \<Rightarrow> Inl (FileNotFoundError p) | Some n \<Rightarrow> Inr (mtime n))"

definition os_path_getsize :: "node \<Rightarrow> path \<Rightarrow> error + nat" where
  "os_path_getsize fs p =
     (case resolve fs p of
        None \<Rightarrow> Inl (FileNotFoundError p)
      | Some (File nm mt c r) \<Rightarrow> Inr (length c)
      | Some (Dir nm mt l es) \<Rightarrow> Inr 0)"

text \<open>Writing a node at a path whose parent directory exists (the entry is replaced or added).\<close>

fun replace_entry :: "node \<Rightarrow> node list \<Rightarrow> node list" where
  "replace_entry n [] = [n]"
| "replace_entry n (e # es) = (if name e = name n then n # es else e # replace_entry n es)"

fun put :: "node \<Rightarrow> path \<Rightarrow> node \<Rightarrow> node option" where
  "put fs [] n = None"
| "put (File nm mt c r) (x # xs) n = None"
| "put (Dir nm mt l es) (x # xs) n =
     (if x = ''.'' then put (Dir nm mt l es) xs n
      else if xs = [] then Some (Dir nm mt l (replace_entry n es))
      else case lookup_entry x es of
             None \<Rightarrow> None
           | Some e \<Rightarrow> (case put e xs n of
                          None \<Rightarrow> None
                        | Some e' \<Rightarrow> Some (Dir nm mt l (replace_entry e' es))))"

text \<open>\<^verbatim>\<open>os.mkdir\<close>: the directory must not exist and its parent must be a directory.\<close>

definition os_mkdir :: "node \<Rightarrow> path \<Rightarrow> error + node" where
  "os_mkdir fs p =
     (if os_path_exists fs p then Inl (FileExistsError p)
      else case put fs p (Dir (last p) 0 True []) of
             None \<Rightarrow> Inl (if os_path_exists fs (butlast p) then NotADirectoryError p
                         else FileNotFoundError p)
           | Some fs' \<Rightarrow> Inr fs')"

definition mkdir_step :: "node \<Rightarrow> path \<Rightarrow> node \<times> error option" where
  "mkdir_step fs p = (case os_mkdir fs p of Inl e \<Rightarrow> (fs, Some e) | Inr fs' \<Rightarrow> (fs', None))"

text \<open>
  \<^verbatim>\<open>os.makedirs(name)\<close> splits \<^verbatim>\<open>name\<close> into head and tail, first makes a missing
  head, returns at once when the tail is \<^verbatim>\<open>.\<close>, and otherwise calls
  \<^verbatim>\<open>os.mkdir(name)\<close>. The recursion runs over the reversed path; the file system reached
  is returned also when the call raises. (The library passes over a
  \<^verbatim>\<open>FileExistsError\<close> of the inner call; only a directory created by another process
  in between can cause one, so that branch is left out.)
\<close>

fun makedirs_rev :: "node \<Rightarrow> string list \<Rightarrow> node \<times> error option" where
  "makedirs_rev fs [] = mkdir_step fs []"
| "makedirs_rev fs (tail # rhead) =
     (if rhead \<noteq> [] \<and> \<not> os_path_exists fs (rev rhead) then
        (case makedirs_rev fs rhead of
           (fs1, Some e) \<Rightarrow> (fs1, Some e)
         | (fs1, None) \<Rightarrow>
             if tail = ''.'' then (fs1, None) else mkdir_step fs1 (rev rhead @ [tail]))
      else mkdir_step fs (rev rhead @ [tail]))"

definition os_makedirs :: "node \<Rightarrow> path \<Rightarrow> node \<times> error option" where
  "os_makedirs fs p = makedirs_rev fs (rev p)"

text \<open>
  \<^verbatim>\<open>shutil.copy2(src, dst)\<close>: when \<^verbatim>\<open>dst\<close> is a directory the file goes into it under the
  base name of \<^verbatim>\<open>src\<close>; copying a file onto itself raises; the source must be a readable
  regular file; the target must not be a directory and its parent must be one. The copy
  carries the bytes, the modification time and the permission of the source.
\<close>

definition normpath :: "path \<Rightarrow> path" where
  "normpath p = filter (\<lambda>c. c \<noteq> ''.'') p"

definition shutil_copy2 :: "node \<Rightarrow> path \<Rightarrow> path \<Rightarrow> error + node" where
  "shutil_copy2 fs src dst =
     (let dst' = (if os_path_isdir fs dst then dst @ [last src] else dst) in
      if os_path_exists fs src \<and> os_path_exists fs dst' \<and> normpath src = normpath dst'
      then Inl (SameFileError src dst')
      else case resolve fs src of
             None \<Rightarrow> Inl (FileNotFoundError src)
           | Some (Dir nm mt l es) \<Rightarrow> Inl (IsADirectoryError src)
           | Some (File nm mt c r) \<Rightarrow>
               if \<not> r then Inl (PermissionError src)
               else if os_path_isdir fs dst' then Inl (IsADirectoryError dst')
               else (case put fs dst' (File (last dst') mt c r) of
                       None \<Rightarrow> Inl (if os_path_exists fs (butlast dst')
                                   then NotADirectoryError dst' else FileNotFoundError dst')
                     | Some fs' \<Rightarrow> Inr fs'))"

text \<open>
  \<^verbatim>\<open>os.walk(top)\<close>, top-down and with the default \<^verbatim>\<open>onerror=None\<close>: a directory that
  cannot be listed (missing, not a directory, no permission) yields nothing and raises
  nothing. Each listed directory yields its path, the names of its sub-directories and
  the names of its other entries, and then its sub-directories are walked in turn.
\<close>

fun is_dir :: "node \<Rightarrow> bool" where
  "is_dir (Dir nm mt l es) = True"
| "is_dir (File nm mt c r) = False"

fun walk_node :: "path \<Rightarrow> node \<Rightarrow> (path \<times> string list \<times> string list) list" where
  "walk_node tp (File nm mt c r) = []"
| "walk_node tp (Dir nm mt l es) =
     (if \<not> l then []
      else (tp, map name (filter is_dir es), map name (filter (\<lambda>e. \<not> is_dir e) es))
           # concat (map (\<lambda>e. walk_node (tp @ [name e]) e) es))"

definition os_walk :: "node \<Rightarrow> path \<Rightarrow> (path \<times> string list \<times> string list) list" where
  "os_walk fs tp = (case resolve fs tp of None \<Rightarrow> [] | Some n \<Rightarrow> walk_node tp n)"

text \<open>
  \<^verbatim>\<open>os.path.relpath(root, start)\<close> for a \<^verbatim>\<open>root\<close> that \<^verbatim>\<open>os.walk(start)\<close> yielded:
  the components below \<^verbatim>\<open>start\<close>, or \<^verbatim>\<open>.\<close> for \<^verbatim>\<open>start\<close> itself.
\<close>

definition os_path_relpath :: "path \<Rightarrow> path \<Rightarrow> path" where
  "os_path_relpath rootd start =
     (let r = drop (length start) rootd in if r = [] then [''.''] else r)"


section \<open>The progress percentage\<close>

text \<open>
  \<^verbatim>\<open>progress = int((copied_files / total_files) * 100)\<close> is evaluated by Python in
  double precision: the quotient of the two integers is rounded to the nearest double,
  the product with 100 is rounded again, and \<^verbatim>\<open>int\<close> truncates. A positive double is
  kept here as a pair \<open>(m, t)\<close> standing for \<open>m / 2 ^ t\<close>, with a mantissa \<open>m\<close> of 53 bits.
\<close>

definition rne :: "nat \<Rightarrow> nat \<Rightarrow> nat" where
  \<comment> \<open>\<open>a / b\<close> rounded to the nearest integer, ties to the even one\<close>
  "rne a b =
     (let q = a div b; r = a mod b in
      if 2 * r < b then q else if b < 2 * r then q + 1 else if even q then q else q + 1)"

function norm_shift :: "nat \<Rightarrow> nat \<Rightarrow> nat \<Rightarrow> nat" where
  \<comment> \<open>the least \<open>t' \<ge> t\<close> with \<open>2 ^ 52 \<le> a * 2 ^ t' / b\<close>\<close>
  "norm_shift a b t =
     (if a = 0 \<or> b * 2 ^ 52 \<le> a * 2 ^ t then t else norm_shift a b (Suc t))"
  by pat_completeness auto
termination
proof (relation "measure (\<lambda>(a, b, t). b * 2 ^ 52 - a * 2 ^ t)")
  show "wf (measure (\<lambda>(a :: nat, b :: nat, t :: nat). b * 2 ^ 52 - a * 2 ^ t))"
    by simp
next
  fix a b t :: nat
  assume "\<not> (a = 0 \<or> b * 2 ^ 52 \<le> a * 2 ^ t)"
  then have "0 < a * 2 ^ t" and "a * 2 ^ t < b * 2 ^ 52"
    by auto
  then have "b * 2 ^ 52 - 2 * (a * 2 ^ t) < b * 2 ^ 52 - a * 2 ^ t"
    by linarith
  then show "((a, b, Suc t), (a, b, t)) \<in> measure (\<lambda>(a, b, t). b * 2 ^ 52 - a * 2 ^ t)"
    by (simp add: mult.left_commute)
qed

declare norm_shift.simps [simp del]

definition round53 :: "nat \<Rightarrow> nat \<Rightarrow> nat \<times> nat" where
  \<comment> \<open>the double nearest to \<open>a / b\<close>, for \<open>a / b < 2 ^ 53\<close>\<close>
  "round53 a b = (let t = norm_shift a b 0 in (rne (a * 2 ^ t) b, t))"

definition truediv :: "nat \<Rightarrow> nat \<Rightarrow> nat \<times> nat" where
  "truediv a b = round53 a b"

definition mul_int :: "nat \<times> nat \<Rightarrow> nat \<Rightarrow> nat \<times> nat" where
  "mul_int x c = (case x of (m, t) \<Rightarrow> round53 (m * c) (2 ^ t))"

definition py_int :: "nat \<times> nat \<Rightarrow> int" where
  "py_int x = (case x of (m, t) \<Rightarrow> int (m div 2 ^ t))"

definition progress :: "nat \<Rightarrow> nat \<Rightarrow> int" where
  "progress copied_files total_files = py_int (mul_int (truediv copied_files total_files) 100)"


section \<open>BackupThread.run: the execute pass\<close>

record backup_result =
  date :: string
  copied_files :: nat
  modified_files :: nat
  copied_folders :: nat
  modified_folders :: nat
  source :: path
  destination :: path
  errors :: "string list"

datatype signal =
    progress_update int
  | backup_finished backup_result
  | error_occurred "string list"

text \<open>
  The local variables of \<^verbatim>\<open>run\<close>, the thread's \<^verbatim>\<open>error_log\<close>, the file system and the
  signals emitted so far. \<open>copied_files_counter\<close> is the local variable \<^verbatim>\<open>copied_files\<close>.
\<close>

record run_state =
  fs :: node
  copied_files_counter :: nat
  copied_files_list :: "path list"
  modified_files_list :: "path list"
  copied_folders_list :: "path list"
  modified_folders_list :: "path list"
  error_log :: "string list"
  emitted :: "signal list"

definition init_state :: "node \<Rightarrow> run_state" where
  "init_state fs0 =
     \<lparr>fs = fs0, copied_files_counter = 0, copied_files_list = [], modified_files_list = [],
      copied_folders_list = [], modified_folders_list = [], error_log = [], emitted = []\<rparr>"

text \<open>
  The body of the inner \<^verbatim>\<open>try\<close>: classify the file, then copy it. The state reached is
  returned together with the exception raised, if any (an append made before the
  exception stays).
\<close>

definition try_block :: "run_state \<Rightarrow> path \<Rightarrow> path \<Rightarrow> run_state \<times> error option" where
  "try_block st source_file dest_file =
     (let classified =
        (if \<not> os_path_exists (fs st) dest_file
         then Inr (st\<lparr>copied_files_list := copied_files_list st @ [dest_file]\<rparr>)
         else case os_path_getmtime (fs st) source_file of
                Inl e \<Rightarrow> Inl e
              | Inr ms \<Rightarrow>
                  (case os_path_getmtime (fs st) dest_file of
                     Inl e \<Rightarrow> Inl e
                   | Inr md \<Rightarrow>
                       Inr (if ms > md
                            then st\<lparr>modified_files_list := modified_files_list st @ [dest_file]\<rparr>
                            else st)))
      in case classified of
           Inl e \<Rightarrow> (st, Some e)
         | Inr st1 \<Rightarrow>
             (case shutil_copy2 (fs st1) source_file dest_file of
                Inl e \<Rightarrow> (st1, Some e)
              | Inr fs' \<Rightarrow> (st1\<lparr>fs := fs'\<rparr>, None)))"

definition error_line :: "path \<Rightarrow> path \<Rightarrow> error \<Rightarrow> string" where
  "error_line source_file dest_file e =
     ''Error copying '' @ pstr source_file @ '' to '' @ pstr dest_file @ '': '' @ str_error e"

text \<open>
  One round of \<^verbatim>\<open>for file in files\<close>: the \<^verbatim>\<open>try\<close> with its \<^verbatim>\<open>except Exception\<close>, the
  counter, and the progress signal. The division is outside the \<^verbatim>\<open>try\<close>.
\<close>

definition file_step ::
  "nat \<Rightarrow> path \<Rightarrow> path \<Rightarrow> run_state \<Rightarrow> string \<Rightarrow> run_state \<times> error option" where
  "file_step total_files rootd dest_path st file =
     (let source_file = rootd @ [file];
          dest_file = dest_path @ [file];
          (st1, exc) = try_block st source_file dest_file;
          st2 = (case exc of
                   None \<Rightarrow> st1
                 | Some e \<Rightarrow>
                     st1\<lparr>error_log := error_log st1 @ [error_line source_file dest_file e]\<rparr>);
          st3 = st2\<lparr>copied_files_counter := copied_files_counter st2 + 1\<rparr>
      in if total_files = 0 then (st3, Some ZeroDivisionError)
         else (st3\<lparr>emitted := emitted st3 @
                  [progress_update (progress (copied_files_counter st3) total_files)]\<rparr>, None))"

fun files_loop ::
  "nat \<Rightarrow> path \<Rightarrow> path \<Rightarrow> run_state \<Rightarrow> string list \<Rightarrow> run_state \<times> error option" where
  "files_loop total_files rootd dest_path st [] = (st, None)"
| "files_loop total_files rootd dest_path st (file # files) =
     (case file_step total_files rootd dest_path st file of
        (st', Some e) \<Rightarrow> (st', Some e)
      | (st', None) \<Rightarrow> files_loop total_files rootd dest_path st' files)"

text \<open>One round of \<^verbatim>\<open>for root, dirs, files in os.walk(self.source)\<close>.\<close>

definition dir_step ::
  "nat \<Rightarrow> path \<Rightarrow> path \<Rightarrow> run_state \<Rightarrow> path \<times> string list \<times> string list
     \<Rightarrow> run_state \<times> error option" where
  "dir_step total_files src dst st x =
     (case x of (rootd, dirs, files) \<Rightarrow>
        let relative_path = os_path_relpath rootd src;
            dest_path = dst @ relative_path
        in if \<not> os_path_exists (fs st) dest_path then
             (case os_makedirs (fs st) dest_path of
                (fs', Some e) \<Rightarrow> (st\<lparr>fs := fs'\<rparr>, Some e)
              | (fs', None) \<Rightarrow>
                  files_loop total_files rootd dest_path
                    (st\<lparr>fs := fs', copied_folders_list := copied_folders_list st @ [dest_path]\<rparr>)
                    files)
           else files_loop total_files rootd dest_path
                  (st\<lparr>modified_folders_list := modified_folders_list st @ [dest_path]\<rparr>) files)"

fun walk_loop ::
  "nat \<Rightarrow> path \<Rightarrow> path \<Rightarrow> run_state \<Rightarrow> (path \<times> string list \<times> string list) list
     \<Rightarrow> run_state \<times> error option" where
  "walk_loop total_files src dst st [] = (st, None)"
| "walk_loop total_files src dst st (x # xs) =
     (case dir_step total_files src dst st x of
        (st', Some e) \<Rightarrow> (st', Some e)
      | (st', None) \<Rightarrow> walk_loop total_files src dst st' xs)"

definition count_files :: "(path \<times> string list \<times> string list) list \<Rightarrow> nat" where
  \<comment> \<open>\<^verbatim>\<open>sum([len(files) for r, d, files in os.walk(self.source)])\<close>\<close>
  "count_files w = sum_list (map (\<lambda>(r, d, files). length files) w)"

definition make_result :: "string \<Rightarrow> path \<Rightarrow> path \<Rightarrow> run_state \<Rightarrow> backup_result" where
  "make_result now src dst st =
     \<lparr>date = now,
      copied_files = length (copied_files_list st),
      modified_files = length (modified_files_list st),
      copied_folders = length (copied_folders_list st),
      modified_folders = length (modified_folders_list st),
      source = src, destination = dst, errors = error_log st\<rparr>"

text \<open>
  Everything of \<^verbatim>\<open>run\<close> after the destination check; this part is the whole of \<^verbatim>\<open>run\<close>
  in \<^verbatim>\<open>BackupBanana_MAC.py\<close>. Both walks of the source see the tree as it is when the
  pass starts: the pass writes below the destination only, which is taken to lie outside
  the source tree. The outer \<^verbatim>\<open>except Exception\<close> turns any exception that escapes into
  the \<^verbatim>\<open>error_occurred\<close> signal. The result is the file system left behind and the
  signals in the order of emission.
\<close>

definition run_MAC :: "string \<Rightarrow> node \<Rightarrow> path \<Rightarrow> path \<Rightarrow> node \<times> signal list" where
  "run_MAC now fs0 src dst =
     (let total_files = count_files (os_walk fs0 src);
          (st, exc) = walk_loop total_files src dst (init_state fs0) (os_walk fs0 src)
      in case exc of
           Some e \<Rightarrow> (fs st, emitted st @ [error_occurred [str_error e]])
         | None \<Rightarrow> (fs st, emitted st @ [backup_finished (make_result now src dst st)]))"

text \<open>\<^verbatim>\<open>run\<close> in \<^verbatim>\<open>BackupBanana.py\<close> first checks that the destination exists.\<close>

definition run :: "string \<Rightarrow> node \<Rightarrow> path \<Rightarrow> path \<Rightarrow> node \<times> signal list" where
  "run now fs0 src dst =
     (if \<not> os_path_exists fs0 dst
      then (fs0, [error_occurred [str_error (Exception ''Destination directory is not reachable.'')]])
      else run_MAC now fs0 src dst)"


section \<open>BackupApp.get_changes: the diff pass\<close>

text \<open>
  The three results \<^verbatim>\<open>new_files\<close>, \<^verbatim>\<open>modified_files\<close> and \<^verbatim>\<open>total_size\<close> are threaded
  through the loops as \<open>(news, mods, total_size)\<close>. No call of the function is inside a \<^verbatim>\<open>try\<close>, so an exception of
  \<^verbatim>\<open>os.path.getsize\<close> or \<^verbatim>\<open>os.path.getmtime\<close> leaves the function.
\<close>

type_synonym changes = "string list \<times> string list \<times> nat"

definition change_step :: "node \<Rightarrow> path \<Rightarrow> path \<Rightarrow> changes \<Rightarrow> string \<Rightarrow> error + changes" where
  "change_step fs0 rootd dest_path acc file =
     (case acc of (news, mods, total_size) \<Rightarrow>
        let source_file = rootd @ [file];
            dest_file = dest_path @ [file]
        in case os_path_getsize fs0 source_file of
             Inl e \<Rightarrow> Inl e
           | Inr file_size \<Rightarrow>
               if \<not> os_path_exists fs0 dest_file
               then Inr (news @ [pstr dest_file], mods, total_size + file_size)
               else (case os_path_getmtime fs0 source_file of
                       Inl e \<Rightarrow> Inl e
                     | Inr ms \<Rightarrow>
                         (case os_path_getmtime fs0 dest_file of
                            Inl e \<Rightarrow> Inl e
                          | Inr md \<Rightarrow>
                              if ms > md
                              then Inr (news, mods @ [pstr dest_file],
                                        total_size + file_size)
                              else Inr (news, mods, total_size))))"

fun changes_files :: "node \<Rightarrow> path \<Rightarrow> path \<Rightarrow> changes \<Rightarrow> string list \<Rightarrow> error + changes" where
  "changes_files fs0 rootd dest_path acc [] = Inr acc"
| "changes_files fs0 rootd dest_path acc (file # files) =
     (case change_step fs0 rootd dest_path acc file of
        Inl e \<Rightarrow> Inl e
      | Inr acc' \<Rightarrow> changes_files fs0 rootd dest_path acc' files)"

definition changes_dir ::
  "node \<Rightarrow> path \<Rightarrow> path \<Rightarrow> changes \<Rightarrow> path \<times> string list \<times> string list \<Rightarrow> error + changes" where
  "changes_dir fs0 src dst acc x =
     (case x of (rootd, dirs, files) \<Rightarrow>
        let relative_path = os_path_relpath rootd src;
            dest_path = dst @ relative_path;
            acc1 = (if \<not> os_path_exists fs0 dest_path
                    then (case acc of (news, mods, total_size) \<Rightarrow>
                            (news @ [''New folder: '' @ pstr dest_path], mods,
                             total_size))
                    else acc)
        in changes_files fs0 rootd dest_path acc1 files)"

fun changes_walk ::
  "node \<Rightarrow> path \<Rightarrow> path \<Rightarrow> changes \<Rightarrow> (path \<times> string list \<times> string list) list
     \<Rightarrow> error + changes" where
  "changes_walk fs0 src dst acc [] = Inr acc"
| "changes_walk fs0 src dst acc (x # xs) =
     (case changes_dir fs0 src dst acc x of
        Inl e \<Rightarrow> Inl e
      | Inr acc' \<Rightarrow> changes_walk fs0 src dst acc' xs)"

text \<open>The file system is handed back as the call leaves it.\<close>

definition get_changes :: "node \<Rightarrow> path \<Rightarrow> path \<Rightarrow> node \<times> (error + changes)" where
  "get_changes fs0 src dst = (fs0, changes_walk fs0 src dst ([], [], 0) (os_walk fs0 src))"


section \<open>BackupApp: tasks, scheduling, history and log\<close>

record schedule_info =
  frequency :: string
  at_time :: string
  day :: "string option"

record task =
  task_source :: path
  task_destination :: path
  schedule :: schedule_info

text \<open>
  What \<^verbatim>\<open>schedule_task\<close> asks of the scheduler of the \<^verbatim>\<open>schedule\<close> package, as the chain
  of calls it makes: \<^verbatim>\<open>every().day.at(t)\<close>, \<^verbatim>\<open>every().week.at(t)\<close> or
  \<^verbatim>\<open>every().<weekday>.at(t)\<close>, each followed by
  \<^verbatim>\<open>.do(self.run_scheduled_backup, task_name)\<close>. When a job fires is decided inside that
  package, which is not part of the repository.
\<close>

datatype trigger =
    every_day_at string
  | every_week_at string
  | every_weekday_at string string

text \<open>
  The application object: the selected directories (\<open>None\<close> for the empty string), the
  three in-memory collections, the two JSON files as last written, the jobs handed to
  the scheduler, the console output, the notifications shown, and the backup threads
  started (each with its source and destination).
\<close>

record app =
  app_source :: "path option"
  app_destination :: "path option"
  tasks :: "string \<rightharpoonup> task"
  history :: "backup_result list"
  log :: "backup_result list"
  history_json :: "backup_result list"
  log_json :: "backup_result list"
  jobs :: "(trigger \<times> string) list"
  printed :: "string list"
  notified :: "string list"
  threads :: "(path \<times> path) list"

subsection \<open>record_history\<close>

definition save_history :: "app \<Rightarrow> app" where
  "save_history a = a\<lparr>history_json := history a\<rparr>"

definition save_log :: "app \<Rightarrow> app" where
  "save_log a = a\<lparr>log_json := log a\<rparr>"

definition record_history_MAC :: "app \<Rightarrow> backup_result \<Rightarrow> app" where
  "record_history_MAC a result =
     (let a1 = save_history (a\<lparr>history := history a @ [result]\<rparr>)
      in if errors result \<noteq> [] then save_log (a1\<lparr>log := log a1 @ [result]\<rparr>) else a1)"

definition record_history :: "app \<Rightarrow> backup_result \<Rightarrow> app" where
  "record_history a result =
     (let a1 = record_history_MAC a result
      in a1\<lparr>notified := notified a1 @
           [if copied_files result = 0 \<and> modified_files result = 0
            then ''No changes detected.'' else ''Backup completed successfully.'']\<rparr>)"

text \<open>
  The slots connected to a backup thread in \<^verbatim>\<open>start_backup\<close>: \<^verbatim>\<open>backup_finished\<close> goes
  to \<^verbatim>\<open>record_history\<close>, \<^verbatim>\<open>error_occurred\<close> to \<^verbatim>\<open>handle_backup_error\<close>, and
  \<^verbatim>\<open>progress_update\<close> to the progress bar.
\<close>

definition handle_backup_error :: "app \<Rightarrow> string list \<Rightarrow> app" where
  "handle_backup_error a errs =
     a\<lparr>notified := notified a @ [concat errs, ''Backup failed. Please check the error log.'']\<rparr>"

fun deliver :: "app \<Rightarrow> signal \<Rightarrow> app" where
  "deliver a (progress_update n) = a"
| "deliver a (backup_finished result) = record_history a result"
| "deliver a (error_occurred errs) = handle_backup_error a errs"

definition deliver_all :: "app \<Rightarrow> signal list \<Rightarrow> app" where
  "deliver_all a sigs = foldl deliver a sigs"

subsection \<open>schedule_task\<close>

text \<open>
  The methods below return the application state they leave behind together with the
  exception that left them, if any.
\<close>

definition lower_char :: "char \<Rightarrow> char" where
  "lower_char c =
     (let n = (of_char c :: nat) in if 65 \<le> n \<and> n \<le> 90 then char_of (n + 32) else c)"

definition str_lower :: "string \<Rightarrow> string" where
  "str_lower s = map lower_char s"

definition weekdays :: "string list" where
  "weekdays = [''monday'', ''tuesday'', ''wednesday'', ''thursday'', ''friday'',
               ''saturday'', ''sunday'']"

text \<open>
  \<^verbatim>\<open>schedule_task\<close> of \<^verbatim>\<open>BackupBanana.py\<close>. The weekday reaches the scheduler through
  \<^verbatim>\<open>getattr(every(), day)\<close>; the user interface offers the seven weekday names, and any
  other name is taken to have no such attribute. \<open>KeyError\<close> also stands for the
  \<^verbatim>\<open>AttributeError\<close> of a missing or unknown day.
\<close>

definition schedule_task :: "app \<Rightarrow> string \<Rightarrow> app \<times> error option" where
  "schedule_task a task_name =
     (let a0 = a\<lparr>printed := printed a @ [''Scheduling task: '' @ task_name]\<rparr> in
      case tasks a0 task_name of
        None \<Rightarrow> (a0, Some (KeyError (''Task '' @ task_name @ '' not found in tasks dictionary'')))
      | Some t \<Rightarrow>
          let schedule_info = schedule t; time_str = at_time schedule_info in
          if frequency schedule_info = ''Once''
          then (a0\<lparr>printed := printed a0 @ [''Task '' @ task_name @ '' is set to run once.'']\<rparr>,
                None)
          else if frequency schedule_info = ''Daily''
          then (a0\<lparr>jobs := jobs a0 @ [(every_day_at time_str, task_name)],
                    printed := printed a0 @
                      [''Task '' @ task_name @ '' scheduled daily at '' @ time_str]\<rparr>, None)
          else if frequency schedule_info = ''Weekly''
          then (case day schedule_info of
                  None \<Rightarrow> (a0, Some (KeyError ''lower''))
                | Some d0 \<Rightarrow>
                    let d = str_lower d0 in
                    if d \<notin> set weekdays then (a0, Some (KeyError d))
                    else (a0\<lparr>jobs := jobs a0 @ [(every_weekday_at d time_str, task_name)],
                              printed := printed a0 @
                                [''Task '' @ task_name @ '' scheduled weekly on '' @ d
                                 @ '' at '' @ time_str]\<rparr>, None))
          else (a0, None))"


subsection \<open>start_backup and run_scheduled_backup\<close>

definition has_changes :: "changes \<Rightarrow> bool" where
  "has_changes c = (case c of (news, mods, total_size) \<Rightarrow> news \<noteq> [] \<or> mods \<noteq> [])"

definition start_thread :: "app \<Rightarrow> path \<Rightarrow> path \<Rightarrow> app" where
  \<comment> \<open>\<^verbatim>\<open>self.thread = BackupThread(self.source, self.destination)\<close> ... \<^verbatim>\<open>self.thread.start()\<close>\<close>
  "start_thread a src dst = a\<lparr>threads := threads a @ [(src, dst)]\<rparr>"

definition start_backup :: "node \<Rightarrow> app \<Rightarrow> app \<times> error option" where
  "start_backup fs0 a =
     (case (app_source a, app_destination a) of
        (Some src, Some dst) \<Rightarrow>
          if \<not> os_path_exists fs0 dst
          then (a\<lparr>notified := notified a @
                 [''Destination directory is not reachable. Please check the connection.'']\<rparr>,
                None)
          else (case snd (get_changes fs0 src dst) of
                  Inl e \<Rightarrow> (a, Some e)
                | Inr c \<Rightarrow>
                    if \<not> has_changes c
                    then (a\<lparr>notified := notified a @ [''No changes detected.'']\<rparr>, None)
                    else (start_thread a src dst, None))
      | _ \<Rightarrow> (a\<lparr>notified := notified a @
                 [''Both source and destination directories must be set.'']\<rparr>, None))"

definition start_backup_MAC :: "node \<Rightarrow> app \<Rightarrow> app \<times> error option" where
  "start_backup_MAC fs0 a =
     (case (app_source a, app_destination a) of
        (Some src, Some dst) \<Rightarrow>
          (case snd (get_changes fs0 src dst) of
             Inl e \<Rightarrow> (a, Some e)
           | Inr c \<Rightarrow>
               if \<not> has_changes c
               then (a\<lparr>notified := notified a @ [''No changes detected.'']\<rparr>, None)
               else (start_thread a src dst, None))
      | _ \<Rightarrow> (a\<lparr>notified := notified a @
                 [''Both source and destination directories must be set.'']\<rparr>, None))"

text \<open>
  \<^verbatim>\<open>run_scheduled_backup\<close> of \<^verbatim>\<open>BackupBanana.py\<close> looks the task up with
  \<^verbatim>\<open>self.tasks.get\<close> and returns when there is none.
\<close>

definition run_scheduled_backup :: "node \<Rightarrow> app \<Rightarrow> string \<Rightarrow> app \<times> error option" where
  "run_scheduled_backup fs0 a task_name =
     (let a0 = a\<lparr>printed := printed a @ [''Running scheduled backup for task: '' @ task_name]\<rparr> in
      case tasks a0 task_name of
        None \<Rightarrow> (a0\<lparr>printed := printed a0 @ [''Task '' @ task_name @ '' not found.'']\<rparr>, None)
      | Some t \<Rightarrow>
          start_backup fs0
            (a0\<lparr>printed := printed a0 @ [''Task details''],
                app_source := Some (task_source t),
                app_destination := Some (task_destination t)\<rparr>))"

text \<open>
  \<^verbatim>\<open>run_scheduled_backup\<close> of \<^verbatim>\<open>BackupBanana_MAC.py\<close> subscripts the dictionary:
  \<^verbatim>\<open>task = self.tasks[task_name]\<close>.
\<close>

definition run_scheduled_backup_MAC :: "node \<Rightarrow> app \<Rightarrow> string \<Rightarrow> app \<times> error option" where
  "run_scheduled_backup_MAC fs0 a task_name =
     (case tasks a task_name of
        None \<Rightarrow> (a, Some (KeyError task_name))
      | Some t \<Rightarrow>
          start_backup_MAC fs0
            (a\<lparr>app_source := Some (task_source t),
               app_destination := Some (task_destination t)\<rparr>))"

text \<open>
  \<^verbatim>\<open>SchedulerThread.run\<close>: \<^verbatim>\<open>while self.running: self.scheduler.run_pending();
  time.sleep(1)\<close>. A tick is given by the names of the tasks whose jobs are due at it; the
  jobs run one after the other, and an exception of a job leaves \<^verbatim>\<open>run_pending\<close> and
  with it the loop. The loop is run over a finite list of ticks; the result tells how many
  ticks were completed and the exception that ended the loop, if any.
\<close>

fun run_pending ::
  "(node \<Rightarrow> app \<Rightarrow> string \<Rightarrow> app \<times> error option) \<Rightarrow> node \<Rightarrow> app \<Rightarrow> string list
     \<Rightarrow> app \<times> error option" where
  "run_pending job fs0 a [] = (a, None)"
| "run_pending job fs0 a (task_name # due) =
     (case job fs0 a task_name of
        (a', Some e) \<Rightarrow> (a', Some e)
      | (a', None) \<Rightarrow> run_pending job fs0 a' due)"

fun scheduler_thread_run ::
  "(node \<Rightarrow> app \<Rightarrow> string \<Rightarrow> app \<times> error option) \<Rightarrow> node \<Rightarrow> app \<Rightarrow> string list list
     \<Rightarrow> app \<times> nat \<times> error option" where
  "scheduler_thread_run job fs0 a [] = (a, 0, None)"
| "scheduler_thread_run job fs0 a (due # ticks) =
     (case run_pending job fs0 a due of
        (a', Some e) \<Rightarrow> (a', 0, Some e)
      | (a', None) \<Rightarrow>
          (case scheduler_thread_run job fs0 a' ticks of (a'', n, r) \<Rightarrow> (a'', Suc n, r)))"

text \<open>
  The slots of \<^verbatim>\<open>BackupBanana_MAC.py\<close>: only \<^verbatim>\<open>progress_update\<close> and
  \<^verbatim>\<open>backup_finished\<close> are connected there.
\<close>

fun deliver_MAC :: "app \<Rightarrow> signal \<Rightarrow> app" where
  "deliver_MAC a (progress_update n) = a"
| "deliver_MAC a (backup_finished result) = record_history_MAC a result"
| "deliver_MAC a (error_occurred errs) = a"

definition deliver_all_MAC :: "app \<Rightarrow> signal list \<Rightarrow> app" where
  "deliver_all_MAC a sigs = foldl deliver_MAC a sigs"

section \<open>Sample data\<close>

text \<open>
  A small file system: a source tree with a new file, a file that is newer than its copy
  and a file that may not be read; a destination that holds the older copy.
\<close>

definition sample_fs :: node where
  "sample_fs =
     Dir [] 0 True
       [Dir ''src'' 5 True
          [File ''a.txt'' 10 ''hello'' True,
           Dir ''sub'' 6 True
             [File ''b.txt'' 20 ''new'' True, File ''c.txt'' 20 ''secret'' False]],
        Dir ''dst'' 7 True [Dir ''sub'' 8 True [File ''b.txt'' 15 ''old'' True]]]"

text \<open>The application as it starts without any JSON file.\<close>

definition init_app :: app where
  "init_app =
     \<lparr>app_source = None, app_destination = None, tasks = Map.empty, history = [], log = [],
      history_json = [], log_json = [], jobs = [], printed = [], notified = [], threads = []\<rparr>"

definition weekly_task :: "string \<Rightarrow> task" where
  "weekly_task d =
     \<lparr>task_source = [''src''], task_destination = [''dst''],
      schedule = \<lparr>frequency = ''Weekly'', at_time = ''09:00'', day = Some d\<rparr>\<rparr>"

definition sample_result :: "string list \<Rightarrow> backup_result" where
  "sample_result errs =
     \<lparr>date = ''2024-01-01 09:00:00'', copied_files = 1, modified_files = 0, copied_folders = 0,
      modified_folders = 1, source = [''src''], destination = [''dst''], errors = errs\<rparr>"

definition with_errors :: "backup_result \<Rightarrow> bool" where
  "with_errors r = (errors r \<noteq> [])"

text \<open>The progress signals of the files number \<open>c + 1\<close> to \<open>c + n\<close> of a pass over \<open>t\<close> files.\<close>

definition progress_signals :: "nat \<Rightarrow> nat \<Rightarrow> nat \<Rightarrow> signal list" where
  "progress_signals t c n = map (\<lambda>k. progress_update (progress k t)) [Suc c ..< Suc c + n]"

text \<open>A source directory with one file, and no destination yet.\<close>

definition tiny_fs :: node where
  "tiny_fs = Dir [] 0 True [Dir ''src'' 1 True [File ''a.txt'' 10 ''hello'' True]]"


text \<open>
  A destination whose copy of \<^verbatim>\<open>a.txt\<close> is newer than the source file and has other
  bytes.
\<close>

definition stale_fs :: node where
  "stale_fs =
     Dir [] 0 True
       [Dir ''src'' 1 True [File ''a.txt'' 10 ''hello'' True],
        Dir ''dst'' 2 True [File ''a.txt'' 99 ''precious'' True]]"

text \<open>
  The destination is in step with the source: every directory the walk visits has its
  mirror, and every file it lists has a copy with the same modification time.
\<close>

definition in_sync :: "node \<Rightarrow> path \<Rightarrow> path \<Rightarrow> bool" where
  "in_sync fs0 src dst =
     list_all
       (\<lambda>(rootd, dirs, files).
          os_path_exists fs0 (dst @ os_path_relpath rootd src)
          \<and> list_all
               (\<lambda>file.
                  os_path_exists fs0 (rootd @ [file])
                  \<and> os_path_exists fs0 (dst @ os_path_relpath rootd src @ [file])
                  \<and> os_path_getmtime fs0 (rootd @ [file])
                      = os_path_getmtime fs0 (dst @ os_path_relpath rootd src @ [file]))
               files)
       (os_walk fs0 src)"

text \<open>The same tree after the file has been copied: both files carry the time 10.\<close>

definition synced_fs :: node where
  "synced_fs =
     Dir [] 0 True
       [Dir ''src'' 1 True [File ''a.txt'' 10 ''hello'' True],
        Dir ''dst'' 2 True [File ''a.txt'' 10 ''hello'' True]]"

text \<open>
  A well-formed tree: the entries of a directory have distinct names, none of them the
  name \<^verbatim>\<open>.\<close>, and are well-formed themselves.
\<close>

fun wf_node :: "node \<Rightarrow> bool" where
  "wf_node (File nm mt c r) = True"
| "wf_node (Dir nm mt l es) =
     (distinct (map name es) \<and> ''.'' \<notin> set (map name es) \<and> (\<forall>e\<in>set es. wf_node e))"


text \<open>A source with a sub-directory that may not be listed.\<close>

definition locked_fs :: node where
  "locked_fs =
     Dir [] 0 True
       [Dir ''src'' 1 True
          [File ''a.txt'' 10 ''hello'' True,
           Dir ''priv'' 3 False [File ''key'' 4 ''secret'' True]],
        Dir ''dst'' 2 True []]"

text \<open>
  What the diff pass is expected to report for the directories \<open>w\<close> that the walk yields,
  said once more without the loops: a file is modified when it exists at the destination
  and the modification time of the source is strictly greater; the new entries are the
  missing mirror directories and the files with no copy, in the order of the walk; the
  size is that of the new and of the modified files.
\<close>

definition is_modified :: "node \<Rightarrow> path \<Rightarrow> path \<Rightarrow> bool" where
  "is_modified fs0 source_file dest_file =
     (os_path_exists fs0 dest_file
      \<and> (case (os_path_getmtime fs0 source_file, os_path_getmtime fs0 dest_file) of
           (Inr ms, Inr md) \<Rightarrow> ms > md
         | _ \<Rightarrow> False))"

definition size_of_file :: "node \<Rightarrow> path \<Rightarrow> nat" where
  "size_of_file fs0 p = (case os_path_getsize fs0 p of Inr n \<Rightarrow> n | Inl e \<Rightarrow> 0)"

definition expected_changes ::
  "node \<Rightarrow> path \<Rightarrow> path \<Rightarrow> (path \<times> string list \<times> string list) list \<Rightarrow> changes" where
  "expected_changes fs0 src dst w =
     (concat (map (\<lambda>(rootd, dirs, files).
          (if os_path_exists fs0 (dst @ os_path_relpath rootd src) then []
           else [''New folder: '' @ pstr (dst @ os_path_relpath rootd src)])
          @ map (\<lambda>file. pstr (dst @ os_path_relpath rootd src @ [file]))
              (filter (\<lambda>file. \<not> os_path_exists fs0 (dst @ os_path_relpath rootd src @ [file])) files)) w),
      concat (map (\<lambda>(rootd, dirs, files).
          map (\<lambda>file. pstr (dst @ os_path_relpath rootd src @ [file]))
            (filter (\<lambda>file. is_modified fs0 (rootd @ [file]) (dst @ os_path_relpath rootd src @ [file]))
               files)) w),
      sum_list (map (\<lambda>(rootd, dirs, files).
          sum_list (map (\<lambda>file. size_of_file fs0 (rootd @ [file]))
            (filter (\<lambda>file. \<not> os_path_exists fs0 (dst @ os_path_relpath rootd src @ [file])
                            \<or> is_modified fs0 (rootd @ [file]) (dst @ os_path_relpath rootd src @ [file]))
               files))) w))"

section \<open>Properties of the model\<close>

subsection \<open>Signals of a pass, history and log\<close>

lemma record_history_MAC_fields:
  "history (record_history_MAC a r) = history a @ [r]"
  "history_json (record_history_MAC a r) = history a @ [r]"
  "log (record_history_MAC a r) = (if with_errors r then log a @ [r] else log a)"
  "log_json (record_history_MAC a r) = (if with_errors r then log a @ [r] else log_json a)"
  by (simp_all add: record_history_MAC_def save_history_def save_log_def with_errors_def Let_def)

lemma record_history_fields:
  "history (record_history a r) = history a @ [r]"
  "history_json (record_history a r) = history a @ [r]"
  "log (record_history a r) = (if with_errors r then log a @ [r] else log a)"
  "log_json (record_history a r) = (if with_errors r then log a @ [r] else log_json a)"
  by (simp_all add: record_history_def record_history_MAC_fields Let_def)

lemma try_block_frame:
  assumes "try_block st s d = (st1, x)"
  shows "emitted st1 = emitted st" and "copied_files_counter st1 = copied_files_counter st"
    and "copied_folders_list st1 = copied_folders_list st"
    and "modified_folders_list st1 = modified_folders_list st"
    and "error_log st1 = error_log st"
  using assms
  by (auto simp: try_block_def Let_def split: sum.splits if_splits)

lemma file_step_pos:
  assumes "0 < t"
  shows "\<exists>st'. file_step t r d st f = (st', None)
           \<and> emitted st' = emitted st @ [progress_update (progress (Suc (copied_files_counter st)) t)]
           \<and> copied_files_counter st' = Suc (copied_files_counter st)
           \<and> copied_folders_list st' = copied_folders_list st
           \<and> modified_folders_list st' = modified_folders_list st"
proof -
  obtain st1 x where tb: "try_block st (r @ [f]) (d @ [f]) = (st1, x)"
    by (cases "try_block st (r @ [f]) (d @ [f])")
  show ?thesis
    using assms try_block_frame[OF tb] tb
    by (cases x) (simp_all add: file_step_def Let_def)
qed


lemma upt_shift: "[Suc c ..< Suc c + Suc n] = Suc c # [Suc (Suc c) ..< Suc (Suc c) + n]"
  by (subst upt_rec) simp

lemma files_loop_pos:
  assumes "0 < t"
  shows "\<exists>st'. files_loop t r d st fl = (st', None)
           \<and> emitted st' = emitted st @ progress_signals t (copied_files_counter st) (length fl)
           \<and> copied_files_counter st' = copied_files_counter st + length fl
           \<and> copied_folders_list st' = copied_folders_list st
           \<and> modified_folders_list st' = modified_folders_list st"
proof (induction fl arbitrary: st)
  case Nil
  show ?case by (simp add: progress_signals_def)
next
  case (Cons f fl)
  obtain st1 where s1: "file_step t r d st f = (st1, None)"
    and e1: "emitted st1 = emitted st @ [progress_update (progress (Suc (copied_files_counter st)) t)]"
    and c1: "copied_files_counter st1 = Suc (copied_files_counter st)"
    and f1: "copied_folders_list st1 = copied_folders_list st"
            "modified_folders_list st1 = modified_folders_list st"
    using file_step_pos[OF assms, of r d st f] by blast
  obtain st2 where s2: "files_loop t r d st1 fl = (st2, None)"
    and e2: "emitted st2 = emitted st1 @ progress_signals t (copied_files_counter st1) (length fl)"
    and c2: "copied_files_counter st2 = copied_files_counter st1 + length fl"
    and f2: "copied_folders_list st2 = copied_folders_list st1"
            "modified_folders_list st2 = modified_folders_list st1"
    using Cons.IH[of st1] by blast
  have "[Suc (copied_files_counter st) ..< Suc (copied_files_counter st) + length (f # fl)]
        = Suc (copied_files_counter st)
          # [Suc (copied_files_counter st1) ..< Suc (copied_files_counter st1) + length fl]"
    using upt_shift[of "copied_files_counter st" "length fl"] by (simp add: c1)
  then show ?case
    using s1 s2 e1 e2 c1 c2 f1 f2 by (simp add: progress_signals_def)
qed

lemma mkdir_step_no_zero_division: "snd (mkdir_step fs0 p) \<noteq> Some ZeroDivisionError"
  by (simp add: mkdir_step_def os_mkdir_def split: option.splits)

lemma makedirs_rev_no_zero_division: "snd (makedirs_rev fs0 p) \<noteq> Some ZeroDivisionError"
proof (induction fs0 p rule: makedirs_rev.induct)
  case (1 fs0)
  then show ?case by (simp add: mkdir_step_no_zero_division)
next
  case (2 fs0 tail rhead)
  then show ?case
    by (auto simp: mkdir_step_no_zero_division split: prod.splits option.splits)
qed


lemma progress_signals_append:
  "progress_signals t c n @ progress_signals t (c + n) m = progress_signals t c (n + m)"
proof -
  have "[Suc c ..< Suc c + (n + m)] = [Suc c ..< Suc c + n] @ [Suc c + n ..< Suc c + n + m]"
    using upt_add_eq_append[of "Suc c" "Suc c + n" m] by (simp add: add.assoc)
  then show ?thesis
    by (simp add: progress_signals_def)
qed

lemma os_makedirs_no_zero_division: "snd (os_makedirs fs0 p) \<noteq> Some ZeroDivisionError"
  by (simp add: os_makedirs_def makedirs_rev_no_zero_division)

lemma dir_step_effect:
  assumes ok: "0 < t \<or> fl = []"
    and step: "dir_step t s d st (r, ds, fl) = (st', exc)"
  shows "exc \<noteq> Some ZeroDivisionError"
    and "exc = None \<Longrightarrow>
           emitted st' = emitted st @ progress_signals t (copied_files_counter st) (length fl)
           \<and> copied_files_counter st' = copied_files_counter st + length fl
           \<and> length (copied_folders_list st') + length (modified_folders_list st')
               = Suc (length (copied_folders_list st) + length (modified_folders_list st))"
    and "exc \<noteq> None \<Longrightarrow>
           emitted st' = emitted st \<and> copied_files_counter st' = copied_files_counter st"
proof -
  have loop: "\<exists>st2. files_loop t r p st1 fl = (st2, None)
           \<and> emitted st2 = emitted st1 @ progress_signals t (copied_files_counter st1) (length fl)
           \<and> copied_files_counter st2 = copied_files_counter st1 + length fl
           \<and> copied_folders_list st2 = copied_folders_list st1
           \<and> modified_folders_list st2 = modified_folders_list st1" for st1 p
  proof (cases "0 < t")
    case True
    then show ?thesis by (rule files_loop_pos)
  next
    case False
    with ok have "fl = []" by simp
    then show ?thesis by (simp add: progress_signals_def)
  qed
  define p where "p = d @ os_path_relpath r s"
  consider (present) "os_path_exists (fs st) p"
    | (failed) fs' e where "\<not> os_path_exists (fs st) p" "os_makedirs (fs st) p = (fs', Some e)"
    | (made) fs' where "\<not> os_path_exists (fs st) p" "os_makedirs (fs st) p = (fs', None)"
    by (cases "os_makedirs (fs st) p"; cases "snd (os_makedirs (fs st) p)") auto
  then have "exc \<noteq> Some ZeroDivisionError
      \<and> (exc = None \<longrightarrow>
           emitted st' = emitted st @ progress_signals t (copied_files_counter st) (length fl)
           \<and> copied_files_counter st' = copied_files_counter st + length fl
           \<and> length (copied_folders_list st') + length (modified_folders_list st')
               = Suc (length (copied_folders_list st) + length (modified_folders_list st)))
      \<and> (exc \<noteq> None \<longrightarrow>
           emitted st' = emitted st \<and> copied_files_counter st' = copied_files_counter st)"
  proof cases
    case present
    then have "dir_step t s d st (r, ds, fl)
        = files_loop t r p (st\<lparr>modified_folders_list := modified_folders_list st @ [p]\<rparr>) fl"
      by (simp add: dir_step_def Let_def p_def)
    with step loop[where p = p and ?st1.0 = "st\<lparr>modified_folders_list := modified_folders_list st @ [p]\<rparr>"]
    show ?thesis by auto
  next
    case failed
    then have "dir_step t s d st (r, ds, fl) = (st\<lparr>fs := fs'\<rparr>, Some e)"
      by (simp add: dir_step_def Let_def p_def)
    with step failed os_makedirs_no_zero_division[of "fs st" p]
    show ?thesis by auto
  next
    case made
    then have "dir_step t s d st (r, ds, fl)
        = files_loop t r p
            (st\<lparr>fs := fs', copied_folders_list := copied_folders_list st @ [p]\<rparr>) fl"
      by (simp add: dir_step_def Let_def p_def)
    with step loop[where p = p and ?st1.0 = "st\<lparr>fs := fs', copied_folders_list := copied_folders_list st @ [p]\<rparr>"]
    show ?thesis by auto
  qed
  then show "exc \<noteq> Some ZeroDivisionError"
    and "exc = None \<Longrightarrow>
           emitted st' = emitted st @ progress_signals t (copied_files_counter st) (length fl)
           \<and> copied_files_counter st' = copied_files_counter st + length fl
           \<and> length (copied_folders_list st') + length (modified_folders_list st')
               = Suc (length (copied_folders_list st) + length (modified_folders_list st))"
    and "exc \<noteq> None \<Longrightarrow>
           emitted st' = emitted st \<and> copied_files_counter st' = copied_files_counter st"
    by blast+
qed

lemma count_files_Cons: "count_files ((r, ds, fl) # w) = length fl + count_files w"
  by (simp add: count_files_def)

lemma walk_loop_effect:
  assumes "t = 0 \<longrightarrow> count_files w = 0"
    and "walk_loop t s d st w = (st', exc)"
  shows "exc \<noteq> Some ZeroDivisionError \<and>
         (\<exists>n\<le>count_files w.
            emitted st' = emitted st @ progress_signals t (copied_files_counter st) n
            \<and> copied_files_counter st' = copied_files_counter st + n
            \<and> (exc = None \<longrightarrow> n = count_files w
                 \<and> length (copied_folders_list st') + length (modified_folders_list st')
                     = length (copied_folders_list st) + length (modified_folders_list st) + length w))"
  using assms
proof (induction w arbitrary: st)
  case Nil
  then show ?case by (simp add: progress_signals_def count_files_def)
next
  case (Cons x w)
  obtain r ds fl where x: "x = (r, ds, fl)" by (cases x)
  obtain st1 e1 where d1: "dir_step t s d st (r, ds, fl) = (st1, e1)"
    by (cases "dir_step t s d st (r, ds, fl)")
  from Cons.prems(1) have ok: "0 < t \<or> fl = []" and rest: "t = 0 \<longrightarrow> count_files w = 0"
    by (auto simp: x count_files_Cons)
  note eff = dir_step_effect[OF ok d1]
  show ?case
  proof (cases e1)
    case (Some e)
    with Cons.prems(2) d1 have "st' = st1" "exc = Some e" by (auto simp: x)
    with eff Some show ?thesis
      by (auto simp: progress_signals_def intro!: exI[of _ 0])
  next
    case None
    with Cons.prems(2) d1 have w2: "walk_loop t s d st1 w = (st', exc)" by (simp add: x)
    from Cons.IH[OF rest w2] obtain n where n: "n \<le> count_files w"
      "emitted st' = emitted st1 @ progress_signals t (copied_files_counter st1) n"
      "copied_files_counter st' = copied_files_counter st1 + n"
      "exc = None \<longrightarrow> n = count_files w
                 \<and> length (copied_folders_list st') + length (modified_folders_list st')
                     = length (copied_folders_list st1) + length (modified_folders_list st1) + length w"
      and nz: "exc \<noteq> Some ZeroDivisionError"
      by blast
    from eff(2)[OF None] have e: 
      "emitted st1 = emitted st @ progress_signals t (copied_files_counter st) (length fl)"
      "copied_files_counter st1 = copied_files_counter st + length fl"
      "length (copied_folders_list st1) + length (modified_folders_list st1)
               = Suc (length (copied_folders_list st) + length (modified_folders_list st))"
      by simp_all
    show ?thesis
      using n nz e progress_signals_append[of t "copied_files_counter st" "length fl" n]
      by (intro conjI exI[of _ "length fl + n"]) (auto simp: x count_files_Cons)
  qed
qed


lemma run_MAC_signals:
  "\<exists>st exc n. n \<le> count_files (os_walk fs0 src)
     \<and> walk_loop (count_files (os_walk fs0 src)) src dst (init_state fs0) (os_walk fs0 src) = (st, exc)
     \<and> exc \<noteq> Some ZeroDivisionError
     \<and> copied_files_counter st = n
     \<and> emitted st = progress_signals (count_files (os_walk fs0 src)) 0 n
     \<and> (exc = None \<longrightarrow> n = count_files (os_walk fs0 src)
          \<and> length (copied_folders_list st) + length (modified_folders_list st)
              = length (os_walk fs0 src))
     \<and> run_MAC now fs0 src dst =
          (fs st, progress_signals (count_files (os_walk fs0 src)) 0 n @
             [case exc of None \<Rightarrow> backup_finished (make_result now src dst st)
              | Some e \<Rightarrow> error_occurred [str_error e]])"
proof -
  define w where "w = os_walk fs0 src"
  obtain st exc where wl: "walk_loop (count_files w) src dst (init_state fs0) w = (st, exc)"
    by (cases "walk_loop (count_files w) src dst (init_state fs0) w")
  have "count_files w = 0 \<longrightarrow> count_files w = 0" by simp
  from walk_loop_effect[OF this wl] obtain n where n: "n \<le> count_files w"
    "emitted st = emitted (init_state fs0) @ progress_signals (count_files w) (copied_files_counter (init_state fs0)) n"
    "copied_files_counter st = copied_files_counter (init_state fs0) + n"
    "exc = None \<longrightarrow> n = count_files w
       \<and> length (copied_folders_list st) + length (modified_folders_list st)
           = length (copied_folders_list (init_state fs0)) + length (modified_folders_list (init_state fs0)) + length w"
    and nz: "exc \<noteq> Some ZeroDivisionError"
    by blast
  have "run_MAC now fs0 src dst =
          (fs st, progress_signals (count_files w) 0 n @
             [case exc of None \<Rightarrow> backup_finished (make_result now src dst st)
              | Some e \<Rightarrow> error_occurred [str_error e]])"
    using wl n(2) by (cases exc) (simp_all add: run_MAC_def Let_def w_def[symmetric] init_state_def)
  with n nz wl show ?thesis
    unfolding w_def[symmetric] by (intro exI[of _ st] exI[of _ exc] exI[of _ n]) (simp add: init_state_def)
qed

lemma deliver_progress_signals: "foldl deliver a (progress_signals t c n) = a"
proof -
  have "foldl deliver a (map (\<lambda>k. progress_update (f k)) ks) = a" for f :: "nat \<Rightarrow> int" and ks
    by (induction ks) simp_all
  then show ?thesis by (simp add: progress_signals_def)
qed

lemma deliver_MAC_progress_signals: "foldl deliver_MAC a (progress_signals t c n) = a"
proof -
  have "foldl deliver_MAC a (map (\<lambda>k. progress_update (f k)) ks) = a" for f :: "nat \<Rightarrow> int" and ks
    by (induction ks) simp_all
  then show ?thesis by (simp add: progress_signals_def)
qed

lemma deliver_all_run_MAC:
  "deliver_all_MAC a (snd (run_MAC now fs0 src dst)) = deliver_MAC a (last (snd (run_MAC now fs0 src dst)))"
  "deliver_all a (snd (run_MAC now fs0 src dst)) = deliver a (last (snd (run_MAC now fs0 src dst)))"
  using run_MAC_signals[of fs0 src dst now]
  by (auto simp: deliver_all_MAC_def deliver_all_def deliver_MAC_progress_signals deliver_progress_signals)

lemma deliver_all_run:
  "deliver_all a (snd (run now fs0 src dst)) = deliver a (last (snd (run now fs0 src dst)))"
  by (simp add: run_def deliver_all_run_MAC) (simp add: deliver_all_def)

lemma foldl_record_history_log:
  "log a = filter with_errors (history a) \<Longrightarrow>
   log (foldl record_history a rs) = filter with_errors (history (foldl record_history a rs))"
  by (induction rs arbitrary: a) (simp_all add: record_history_fields)

lemma foldl_record_history_MAC_log:
  "log a = filter with_errors (history a) \<Longrightarrow>
   log (foldl record_history_MAC a rs) = filter with_errors (history (foldl record_history_MAC a rs))"
  by (induction rs arbitrary: a) (simp_all add: record_history_MAC_fields)

text \<open>
  Claim C8. Delivering the signals of an execute pass amounts to delivering its terminal
  signal, and a \<^verbatim>\<open>backup_finished\<close> result goes to \<^verbatim>\<open>record_history\<close>: the result is
  appended to the history, the history file is rewritten with it, and the result is
  appended to the log (and the log file rewritten) exactly when its error list is not
  empty. So a log that is the sub-sequence of the history records with errors stays so,
  after one result and after any number of them, in both variants of the program.
\<close>

theorem history_always_log_iff_errors:
  assumes "log a = filter with_errors (history a)"
  shows "deliver_all a (snd (run now fs0 src dst)) = deliver a (last (snd (run now fs0 src dst)))
    \<and> deliver_all_MAC a (snd (run_MAC now fs0 src dst))
        = deliver_MAC a (last (snd (run_MAC now fs0 src dst)))
    \<and> deliver a (backup_finished r) = record_history a r
    \<and> deliver_MAC a (backup_finished r) = record_history_MAC a r
    \<and> history (record_history a r) = history a @ [r]
    \<and> history_json (record_history a r) = history a @ [r]
    \<and> log (record_history a r) = (if errors r \<noteq> [] then log a @ [r] else log a)
    \<and> log_json (record_history a r) = (if errors r \<noteq> [] then log a @ [r] else log_json a)
    \<and> log (record_history a r) = filter with_errors (history (record_history a r))
    \<and> history (record_history_MAC a r) = history a @ [r]
    \<and> history_json (record_history_MAC a r) = history a @ [r]
    \<and> log (record_history_MAC a r) = (if errors r \<noteq> [] then log a @ [r] else log a)
    \<and> log_json (record_history_MAC a r) = (if errors r \<noteq> [] then log a @ [r] else log_json a)
    \<and> log (record_history_MAC a r) = filter with_errors (history (record_history_MAC a r))
    \<and> log (foldl record_history a rs) = filter with_errors (history (foldl record_history a rs))
    \<and> log (foldl record_history_MAC a rs)
        = filter with_errors (history (foldl record_history_MAC a rs))"
  using assms foldl_record_history_log[OF assms, of rs] foldl_record_history_MAC_log[OF assms, of rs]
  by (simp add: deliver_all_run deliver_all_run_MAC record_history_fields
      record_history_MAC_fields with_errors_def)

theorem history_always_log_iff_errors_witness:
  "log init_app = filter with_errors (history init_app)
   \<and> history (record_history init_app (sample_result [''boom''])) = [sample_result [''boom'']]
   \<and> log (record_history init_app (sample_result [''boom''])) = [sample_result [''boom'']]
   \<and> history (record_history init_app (sample_result [])) = [sample_result []]
   \<and> log (record_history init_app (sample_result [])) = []
   \<and> log (foldl record_history init_app [sample_result [], sample_result [''boom'']])
       = filter with_errors
           (history (foldl record_history init_app [sample_result [], sample_result [''boom'']]))"
proof -
  have h: "log init_app = filter with_errors (history init_app)"
    by (simp add: init_app_def)
  show ?thesis
    using h history_always_log_iff_errors[OF h, of _ _ _ _ "sample_result [''boom'']"
        "[sample_result [], sample_result [''boom'']]"]
      history_always_log_iff_errors[OF h, of _ _ _ _ "sample_result []" "[]"]
    by (simp add: init_app_def sample_result_def)
qed

subsection \<open>The arithmetic of the progress percentage\<close>

lemma norm_shift_spec:
  assumes "0 < a"
  shows "t0 \<le> norm_shift a b t0 \<and> b * 2 ^ 52 \<le> a * 2 ^ norm_shift a b t0
         \<and> (t0 < norm_shift a b t0 \<longrightarrow> a * 2 ^ (norm_shift a b t0 - 1) < b * 2 ^ 52)"
  using assms
proof (induction a b t0 rule: norm_shift.induct)
  case (1 a b t)
  show ?case
  proof (cases "b * 2 ^ 52 \<le> a * 2 ^ t")
    case True
    then have "norm_shift a b t = t" by (subst norm_shift.simps) simp
    with True show ?thesis by simp
  next
    case False
    with 1 have eq: "norm_shift a b t = norm_shift a b (Suc t)"
      by (subst norm_shift.simps) simp
    from 1 False have ih: "Suc t \<le> norm_shift a b (Suc t)"
      "b * 2 ^ 52 \<le> a * 2 ^ norm_shift a b (Suc t)"
      "Suc t < norm_shift a b (Suc t) \<longrightarrow> a * 2 ^ (norm_shift a b (Suc t) - 1) < b * 2 ^ 52"
      by auto
    show ?thesis
    proof (cases "Suc t < norm_shift a b (Suc t)")
      case True
      with ih show ?thesis by (simp add: eq)
    next
      case False
      with ih(1) have "norm_shift a b (Suc t) = Suc t" by simp
      with ih \<open>\<not> b * 2 ^ 52 \<le> a * 2 ^ t\<close> show ?thesis by (simp add: eq)
    qed
  qed
qed

lemma norm_shift_eq:
  assumes "0 < a" and "b * 2 ^ 52 \<le> a * 2 ^ t" and "0 < t \<longrightarrow> a * 2 ^ (t - 1) < b * 2 ^ 52"
  shows "norm_shift a b 0 = t"
proof -
  let ?u = "norm_shift a b 0"
  from norm_shift_spec[OF assms(1), of 0 b]
  have u: "b * 2 ^ 52 \<le> a * 2 ^ ?u" "0 < ?u \<longrightarrow> a * 2 ^ (?u - 1) < b * 2 ^ 52" by auto
  have mono: "i \<le> j \<Longrightarrow> a * 2 ^ i \<le> a * 2 ^ j" for i j :: nat
    by (simp add: power_increasing)
  show ?thesis
  proof (rule ccontr)
    assume ne: "?u \<noteq> t"
    show False
    proof (cases "?u < t")
      case True
      then have le: "a * 2 ^ ?u \<le> a * 2 ^ (t - 1)" by (intro mono) simp
      from True have "0 < t" by simp
      with assms(3) have "a * 2 ^ (t - 1) < b * 2 ^ 52" by simp
      with le u(1) show False by linarith
    next
      case False
      with ne have lt: "t < ?u" by simp
      then have le: "a * 2 ^ t \<le> a * 2 ^ (?u - 1)" by (intro mono) simp
      from lt have "0 < ?u" by simp
      with u(2) have "a * 2 ^ (?u - 1) < b * 2 ^ 52" by simp
      with le assms(2) show False by linarith
    qed
  qed
qed

lemma rne_exact: "0 < b \<Longrightarrow> rne (n * b) b = n"
  by (simp add: rne_def)

lemma round53_eval:
  assumes "0 < a" and "b * 2 ^ 52 \<le> a * 2 ^ t" and "0 < t \<longrightarrow> a * 2 ^ (t - 1) < b * 2 ^ 52"
  shows "round53 a b = (rne (a * 2 ^ t) b, t)"
  by (simp add: round53_def norm_shift_eq[OF assms])

lemma progress_full: assumes "0 < n" shows "progress n n = 100"
proof -
  have "truediv n n = (rne (n * 2 ^ 52) n, 52)"
    unfolding truediv_def using assms by (intro round53_eval) simp_all
  moreover have "rne (n * 2 ^ 52) n = 2 ^ 52"
    using assms rne_exact[of n "2 ^ 52"] by (simp add: mult.commute)
  ultimately have t1: "truediv n n = (4503599627370496, 52)"
    by simp
  have "round53 450359962737049600 4503599627370496
          = (rne (450359962737049600 * 2 ^ 46) 4503599627370496, 46)"
    by (intro round53_eval) simp_all
  moreover have "rne (450359962737049600 * 2 ^ 46) 4503599627370496 = 7036874417766400"
    using rne_exact[of 4503599627370496 7036874417766400] by simp
  ultimately have t2: "mul_int (4503599627370496, 52) 100 = (7036874417766400, 46)"
    by (simp add: mul_int_def)
  have "py_int (mul_int (truediv n n) 100) = py_int (7036874417766400, 46)"
    by (simp only: t1 t2)
  then show ?thesis
    by (simp add: progress_def py_int_def)
qed










subsection \<open>The file system operations\<close>

lemma lookup_entry_name: "lookup_entry x es = Some e \<Longrightarrow> name e = x"
  by (induction es) (auto split: if_splits)

lemma lookup_replace_entry:
  "lookup_entry x (replace_entry n es) = (if x = name n then Some n else lookup_entry x es)"
  by (induction es) auto

lemma resolve_Dir:
  "resolve (Dir nm mt l es) q =
     (case dropWhile (\<lambda>c. c = ''.'') q of
        [] \<Rightarrow> Some (Dir nm mt l es)
      | y # ys \<Rightarrow> (case lookup_entry y es of None \<Rightarrow> None | Some e \<Rightarrow> resolve e ys))"
  by (induction q) auto

lemma resolve_append:
  "resolve fs0 (p @ q) = (case resolve fs0 p of None \<Rightarrow> None | Some n \<Rightarrow> resolve n q)"
proof (induction fs0 p rule: resolve.induct)
  case (1 n)
  then show ?case by simp
next
  case (2 nm mt c r x xs)
  then show ?case by simp
next
  case (3 nm mt l es x xs)
  show ?case
  proof (cases "x = ''.''")
    case True
    with 3 show ?thesis by simp
  next
    case False
    show ?thesis
    proof (cases "lookup_entry x es")
      case None
      with False show ?thesis by simp
    next
      case (Some e)
      with False 3(2)[OF False Some] show ?thesis by simp
    qed
  qed
qed

lemma put_Some_Dir: "put fs0 p n = Some fs' \<Longrightarrow> is_dir fs0 \<and> is_dir fs' \<and> name fs' = name fs0"
proof (induction fs0 p n arbitrary: fs' rule: put.induct)
  case (1 fs0 n)
  then show ?case by simp
next
  case (2 nm mt c r x xs n)
  then show ?case by simp
next
  case (3 nm mt l es x xs n)
  show ?case
  proof (cases "x = ''.''")
    case True
    with 3 show ?thesis by simp
  next
    case False
    with "3.prems" show ?thesis
      by (cases "xs = []") (auto split: option.splits)
  qed
qed

lemma resolve_put_same:
  "put fs0 p n = Some fs' \<Longrightarrow> name n = last p \<Longrightarrow> resolve fs' p = Some n"
proof (induction fs0 p n arbitrary: fs' rule: put.induct)
  case (1 fs0 n)
  then show ?case by simp
next
  case (2 nm mt c r x xs n)
  then show ?case by simp
next
  case (3 nm mt l es x xs n)
  show ?case
  proof (cases "x = ''.''")
    case True
    with "3.prems"(1) have p: "put (Dir nm mt l es) xs n = Some fs'" by simp
    then have "xs \<noteq> []" by auto
    with "3.prems"(2) have "name n = last xs" by simp
    from "3.IH"(1)[OF True p this] have "resolve fs' xs = Some n" .
    moreover from put_Some_Dir[OF p] obtain nm' mt' l' es' where "fs' = Dir nm' mt' l' es'"
      by (cases fs') auto
    ultimately show ?thesis using True by simp
  next
    case False
    show ?thesis
    proof (cases "xs = []")
      case True
      with "3.prems" False show ?thesis by (auto simp: lookup_replace_entry)
    next
      case nonempty: False
      with "3.prems"(1) False obtain e e' where e: "lookup_entry x es = Some e" "put e xs n = Some e'"
        "fs' = Dir nm mt l (replace_entry e' es)"
        by (auto split: option.splits)
      from nonempty "3.prems"(2) have "name n = last xs" by simp
      from "3.IH"(2)[OF False nonempty e(1) e(2) this] have "resolve e' xs = Some n" .
      moreover have "name e' = x" using put_Some_Dir[OF e(2)] lookup_entry_name[OF e(1)] by simp
      ultimately show ?thesis using False e(3) by (simp add: lookup_replace_entry)
    qed
  qed
qed

lemma put_exists_mono:
  "put fs0 p n = Some fs' \<Longrightarrow> name n = last p \<Longrightarrow> \<not> os_path_isdir fs0 p \<Longrightarrow>
   resolve fs0 q \<noteq> None \<Longrightarrow> resolve fs' q \<noteq> None"
proof (induction fs0 p n arbitrary: fs' q rule: put.induct)
  case (1 fs0 n)
  then show ?case by simp
next
  case (2 nm mt c r x xs n)
  then show ?case by simp
next
  case (3 nm mt l es x xs n)
  show ?case
  proof (cases "x = ''.''")
    case True
    with "3.prems"(1) have p: "put (Dir nm mt l es) xs n = Some fs'" by simp
    then have "xs \<noteq> []" by auto
    with "3.prems"(2) have nl: "name n = last xs" by simp
    from "3.prems"(3) True have "\<not> os_path_isdir (Dir nm mt l es) xs" by (simp add: os_path_isdir_def)
    from "3.IH"(1)[OF True p nl this "3.prems"(4)] show ?thesis .
  next
    case False
    obtain es' where fs': "fs' = Dir nm mt l es'"
      and look: "\<And>y. y \<noteq> x \<Longrightarrow> lookup_entry y es' = lookup_entry y es"
      and lookx: "\<And>e ys. lookup_entry x es = Some e \<Longrightarrow> resolve e ys \<noteq> None
                    \<Longrightarrow> \<exists>e'. lookup_entry x es' = Some e' \<and> resolve e' ys \<noteq> None"
    proof (cases "xs = []")
      case True
      with "3.prems"(1,2) False have f: "fs' = Dir nm mt l (replace_entry n es)" and nx: "name n = x" by auto
      show ?thesis
      proof (rule that[OF f])
        fix y assume "y \<noteq> x" then show "lookup_entry y (replace_entry n es) = lookup_entry y es"
          by (simp add: lookup_replace_entry nx)
      next
        fix e ys assume e: "lookup_entry x es = Some e" and r: "resolve e ys \<noteq> None"
        from "3.prems"(3) True False e have "\<not> is_dir e"
          by (cases e) (auto simp: os_path_isdir_def)
        with r have "ys = []" by (cases e; cases ys) auto
        then show "\<exists>e'. lookup_entry x (replace_entry n es) = Some e' \<and> resolve e' ys \<noteq> None"
          by (simp add: lookup_replace_entry nx)
      qed
    next
      case nonempty: False
      with "3.prems"(1) False obtain e0 e' where e: "lookup_entry x es = Some e0" "put e0 xs n = Some e'"
        and f: "fs' = Dir nm mt l (replace_entry e' es)"
        by (auto split: option.splits)
      have nx: "name e' = x" using put_Some_Dir[OF e(2)] lookup_entry_name[OF e(1)] by simp
      from nonempty "3.prems"(2) have nl: "name n = last xs" by simp
      from "3.prems"(3) False e(1) have nd: "\<not> os_path_isdir e0 xs" by (simp add: os_path_isdir_def)
      show ?thesis
      proof (rule that[OF f])
        fix y assume "y \<noteq> x" then show "lookup_entry y (replace_entry e' es) = lookup_entry y es"
          by (simp add: lookup_replace_entry nx)
      next
        fix e ys assume "lookup_entry x es = Some e" and r: "resolve e ys \<noteq> None"
        with e(1) have "e = e0" by simp
        with "3.IH"(2)[OF False nonempty e(1) e(2) nl nd] r have "resolve e' ys \<noteq> None" by simp
        then show "\<exists>e'a. lookup_entry x (replace_entry e' es) = Some e'a \<and> resolve e'a ys \<noteq> None"
          by (simp add: lookup_replace_entry nx)
      qed
    qed
    show ?thesis
    proof (cases "dropWhile (\<lambda>c. c = ''.'') q")
      case Nil
      have "resolve fs' q = Some fs'" unfolding fs' resolve_Dir Nil by simp
      then show ?thesis by simp
    next
      case (Cons y ys)
      with "3.prems"(4) obtain e where e: "lookup_entry y es = Some e" "resolve e ys \<noteq> None"
        by (auto simp: resolve_Dir split: option.splits)
      show ?thesis
      proof (cases "y = x")
        case True
        with lookx[of e ys] e obtain e' where "lookup_entry y es' = Some e'" "resolve e' ys \<noteq> None"
          by auto
        then show ?thesis unfolding fs' resolve_Dir Cons by simp
      next
        case False
        with look[of y] e have "lookup_entry y es' = Some e" by simp
        with e(2) show ?thesis unfolding fs' resolve_Dir Cons by simp
      qed
    qed
  qed
qed








lemma shutil_copy2_Inr:
  assumes "shutil_copy2 fs0 s d = Inr fs'"
  shows "\<exists>nm mt c. resolve fs0 s = Some (File nm mt c True)
           \<and> resolve fs' (if os_path_isdir fs0 d then d @ [last s] else d)
               = Some (File (last (if os_path_isdir fs0 d then d @ [last s] else d)) mt c True)"
    and "os_path_exists fs0 q \<Longrightarrow> os_path_exists fs' q"
proof -
  define d' where "d' = (if os_path_isdir fs0 d then d @ [last s] else d)"
  from assms obtain nm mt c where s: "resolve fs0 s = Some (File nm mt c True)"
    and nd: "\<not> os_path_isdir fs0 d'" and pt: "put fs0 d' (File (last d') mt c True) = Some fs'"
    by (auto simp: shutil_copy2_def Let_def d'_def[symmetric] split: if_splits option.splits node.splits)
  from resolve_put_same[OF pt] s
  show "\<exists>nm mt c. resolve fs0 s = Some (File nm mt c True)
           \<and> resolve fs' (if os_path_isdir fs0 d then d @ [last s] else d)
               = Some (File (last (if os_path_isdir fs0 d then d @ [last s] else d)) mt c True)"
    unfolding d'_def[symmetric] by simp
  from put_exists_mono[OF pt _ nd, of q] show "os_path_exists fs0 q \<Longrightarrow> os_path_exists fs' q"
    by (simp add: os_path_exists_def)
qed

subsection \<open>Destination check, scheduled dispatch and weekly jobs\<close>

lemma str_lower_Monday: "str_lower ''Monday'' = ''monday''"
  by code_simp


lemma progress_1_1: "progress (Suc 0) (Suc 0) = 100"
  using progress_full[of "Suc 0"] by simp

text \<open>
  Claim C3, on \<^verbatim>\<open>BackupBanana_MAC.py\<close>. Its \<^verbatim>\<open>run\<close> has no destination check: started
  with a destination that does not exist, the pass creates the destination directory,
  copies into it and ends with a \<^verbatim>\<open>backup_finished\<close> result instead of failing before
  any change.
\<close>

theorem run_MAC_creates_missing_destination:
  "\<not> os_path_exists tiny_fs [''backup'']
   \<and> run_MAC ''t'' tiny_fs [''src''] [''backup''] =
       (Dir [] 0 True
          [Dir ''src'' 1 True [File ''a.txt'' 10 ''hello'' True],
           Dir ''backup'' 0 True [File ''a.txt'' 10 ''hello'' True]],
        [progress_update 100,
         backup_finished
           \<lparr>date = ''t'', copied_files = 1, modified_files = 0, copied_folders = 1,
            modified_folders = 0, source = [''src''], destination = [''backup''], errors = []\<rparr>])"
proof -
  have w: "os_walk tiny_fs [''src''] = [([''src''], [], [''a.txt''])]"
    by (simp add: os_walk_def tiny_fs_def)
  show ?thesis
    by (simp add: run_MAC_def w count_files_def)
       (simp add: tiny_fs_def init_state_def dir_step_def file_step_def try_block_def
          os_path_relpath_def os_path_exists_def os_path_getmtime_def shutil_copy2_def
          os_path_isdir_def normpath_def os_makedirs_def mkdir_step_def os_mkdir_def
          Let_def make_result_def progress_1_1)
qed

text \<open>
  The same start in \<^verbatim>\<open>BackupBanana.py\<close> (the behaviour claim C3 describes): when the
  destination does not exist the pass emits the single signal \<^verbatim>\<open>error_occurred\<close> with the
  message of the raised exception, emits no progress and no result, and leaves the file
  system as it was.
\<close>

theorem run_checks_destination_first:
  assumes "\<not> os_path_exists fs0 dst"
  shows "run now fs0 src dst
         = (fs0, [error_occurred [''Destination directory is not reachable.'']])"
  using assms by (simp add: run_def)

theorem run_checks_destination_first_witness:
  "\<not> os_path_exists tiny_fs [''backup'']
   \<and> run ''t'' tiny_fs [''src''] [''backup'']
       = (tiny_fs, [error_occurred [''Destination directory is not reachable.'']])"
proof -
  have h: "\<not> os_path_exists tiny_fs [''backup'']"
    by (simp add: os_path_exists_def tiny_fs_def)
  show ?thesis
    using h run_checks_destination_first[OF h, of "''t''" "[''src'']"] by simp
qed


text \<open>
  The dispatch of a deleted task in \<^verbatim>\<open>BackupBanana.py\<close> (the behaviour claim C9
  describes): \<^verbatim>\<open>run_scheduled_backup\<close> prints two lines, starts no backup thread and raises
  nothing, so \<^verbatim>\<open>run_pending\<close> goes on with the other due jobs and the scheduler loop
  with the following ticks.
\<close>

theorem missing_task_is_skipped:
  assumes "tasks a task_name = None"
  shows "run_scheduled_backup fs0 a task_name
           = (a\<lparr>printed := printed a @ [''Running scheduled backup for task: '' @ task_name,
                                         ''Task '' @ task_name @ '' not found.'']\<rparr>, None)
    \<and> threads (fst (run_scheduled_backup fs0 a task_name)) = threads a
    \<and> run_pending run_scheduled_backup fs0 a (task_name # due)
        = run_pending run_scheduled_backup fs0 (fst (run_scheduled_backup fs0 a task_name)) due
    \<and> scheduler_thread_run run_scheduled_backup fs0 a ([task_name] # ticks)
        = (case scheduler_thread_run run_scheduled_backup fs0
                  (fst (run_scheduled_backup fs0 a task_name)) ticks of
             (a'', n, r) \<Rightarrow> (a'', Suc n, r))"
  using assms by (simp add: run_scheduled_backup_def Let_def)

theorem missing_task_is_skipped_witness:
  "tasks init_app ''nightly'' = None
   \<and> scheduler_thread_run run_scheduled_backup tiny_fs init_app [[''nightly''], []]
       = (init_app\<lparr>printed := [''Running scheduled backup for task: nightly'',
                                 ''Task nightly not found.'']\<rparr>, 2, None)"
proof -
  have h: "tasks init_app ''nightly'' = None"
    by (simp add: init_app_def)
  show ?thesis
    using h missing_task_is_skipped[OF h, of tiny_fs "[]" "[[]]"]
    by (simp add: init_app_def)
qed

text \<open>
  Claim C9, on \<^verbatim>\<open>BackupBanana_MAC.py\<close>. There \<^verbatim>\<open>run_scheduled_backup\<close> subscripts the
  task dictionary, so the job of a deleted task raises \<^verbatim>\<open>KeyError\<close>; the exception leaves
  \<^verbatim>\<open>run_pending\<close> and the loop of the scheduler thread, and no later tick is served.
\<close>

theorem MAC_missing_task_ends_scheduler_loop:
  "run_scheduled_backup_MAC tiny_fs init_app ''nightly'' = (init_app, Some (KeyError ''nightly''))
   \<and> scheduler_thread_run run_scheduled_backup_MAC tiny_fs init_app [[''nightly''], [], []]
       = (init_app, 0, Some (KeyError ''nightly''))"
  by (simp add: run_scheduled_backup_MAC_def init_app_def)


text \<open>
  Scheduling a weekly task in \<^verbatim>\<open>BackupBanana.py\<close>: exactly one job is added, and its
  request names the configured weekday (in lower case) and the configured time.
\<close>

theorem weekly_job_carries_weekday:
  assumes "tasks a task_name = Some t"
    and "frequency (schedule t) = ''Weekly''"
    and "day (schedule t) = Some d"
    and "str_lower d \<in> set weekdays"
  shows "snd (schedule_task a task_name) = None
    \<and> jobs (fst (schedule_task a task_name))
        = jobs a @ [(every_weekday_at (str_lower d) (at_time (schedule t)), task_name)]"
  using assms by (simp add: schedule_task_def Let_def)

theorem weekly_job_carries_weekday_witness:
  "tasks (init_app\<lparr>tasks := [''w'' \<mapsto> weekly_task ''Monday'']\<rparr>) ''w'' = Some (weekly_task ''Monday'')
   \<and> frequency (schedule (weekly_task ''Monday'')) = ''Weekly''
   \<and> day (schedule (weekly_task ''Monday'')) = Some ''Monday''
   \<and> str_lower ''Monday'' \<in> set weekdays
   \<and> jobs (fst (schedule_task (init_app\<lparr>tasks := [''w'' \<mapsto> weekly_task ''Monday'']\<rparr>) ''w''))
       = [(every_weekday_at ''monday'' ''09:00'', ''w'')]"
proof -
  have h: "tasks (init_app\<lparr>tasks := [''w'' \<mapsto> weekly_task ''Monday'']\<rparr>) ''w'' = Some (weekly_task ''Monday'')"
    "frequency (schedule (weekly_task ''Monday'')) = ''Weekly''"
    "day (schedule (weekly_task ''Monday'')) = Some ''Monday''"
    "str_lower ''Monday'' \<in> set weekdays"
    by (simp_all add: weekly_task_def str_lower_Monday weekdays_def)
  show ?thesis
    using h weekly_job_carries_weekday[OF h]
    by (simp add: init_app_def weekly_task_def str_lower_Monday)
qed




subsection \<open>Nothing is deleted\<close>












subsection \<open>Folders of a pass\<close>

lemma try_block_source_lists:
  assumes "try_block st s d = (st1, x)"
  shows "\<exists>xs ys. copied_files_list st1 = copied_files_list st @ xs
            \<and> modified_files_list st1 = modified_files_list st @ ys \<and> length xs + length ys \<le> 1"
  using assms by (auto simp: try_block_def Let_def split: sum.splits if_splits)





lemma os_walk_root:
  "os_walk fs0 src \<noteq> [] \<longleftrightarrow> (\<exists>nm mt es. resolve fs0 src = Some (Dir nm mt True es))"
  "os_walk fs0 src \<noteq> [] \<Longrightarrow> fst (hd (os_walk fs0 src)) = src"
proof -
  show "os_walk fs0 src \<noteq> [] \<longleftrightarrow> (\<exists>nm mt es. resolve fs0 src = Some (Dir nm mt True es))"
  proof (cases "resolve fs0 src")
    case None
    then show ?thesis by (simp add: os_walk_def)
  next
    case (Some n)
    then show ?thesis by (cases n) (auto simp: os_walk_def)
  qed
  show "os_walk fs0 src \<noteq> [] \<Longrightarrow> fst (hd (os_walk fs0 src)) = src"
  proof (cases "resolve fs0 src")
    case None
    then show "os_walk fs0 src \<noteq> [] \<Longrightarrow> ?thesis" by (simp add: os_walk_def)
  next
    case (Some n)
    then show "os_walk fs0 src \<noteq> [] \<Longrightarrow> ?thesis"
      by (cases n) (auto simp: os_walk_def split: if_splits)
  qed
qed








lemma walk_sample:
  "os_walk sample_fs [''src'']
     = [([''src''], [''sub''], [''a.txt'']), ([''src'', ''sub''], [], [''b.txt'', ''c.txt''])]"
  by (simp add: os_walk_def sample_fs_def)




subsection \<open>Classification and copy of one file\<close>

lemma try_block_copies:
  assumes "os_path_exists (fs st) s"
  shows "snd (try_block st s d) = (case shutil_copy2 (fs st) s d of Inl e \<Rightarrow> Some e | Inr f \<Rightarrow> None)"
    and "fs (fst (try_block st s d)) = (case shutil_copy2 (fs st) s d of Inl e \<Rightarrow> fs st | Inr f \<Rightarrow> f)"
  using assms
  by (auto simp: try_block_def Let_def os_path_getmtime_def os_path_exists_def
      split: sum.splits if_splits option.splits)

lemma try_block_classifies:
  assumes "os_path_getmtime (fs st) s = Inr ms"
  shows "copied_files_list (fst (try_block st s d))
           = (if os_path_exists (fs st) d then copied_files_list st else copied_files_list st @ [d])"
    and "os_path_getmtime (fs st) d = Inr md \<Longrightarrow>
         modified_files_list (fst (try_block st s d))
           = (if ms > md then modified_files_list st @ [d] else modified_files_list st)"
    and "\<not> os_path_exists (fs st) d \<Longrightarrow>
         modified_files_list (fst (try_block st s d)) = modified_files_list st"
  using assms
  by (auto simp: try_block_def Let_def os_path_getmtime_def os_path_exists_def
      split: sum.splits if_splits option.splits)

lemma file_step_is_try_block:
  "fs (fst (file_step t r dp st f)) = fs (fst (try_block st (r @ [f]) (dp @ [f])))"
  "copied_files_list (fst (file_step t r dp st f)) = copied_files_list (fst (try_block st (r @ [f]) (dp @ [f])))"
  "modified_files_list (fst (file_step t r dp st f)) = modified_files_list (fst (try_block st (r @ [f]) (dp @ [f])))"
  by (cases "try_block st (r @ [f]) (dp @ [f])"; cases "snd (try_block st (r @ [f]) (dp @ [f]))";
      simp add: file_step_def Let_def)+

text \<open>
  Claim C5. For a visited file (one that exists at the source) the \<^verbatim>\<open>try\<close> block calls
  \<^verbatim>\<open>shutil.copy2\<close> whatever the classification was: the exception of the block and the
  file system it leaves are those of the copy. A copy that succeeds leaves at the
  destination a file with the bytes and the modification time of the source. A file
  whose copy is not older than the source enters neither list, and is copied all the
  same. Every round of the file loop runs this block.
\<close>

theorem copy_whatever_the_classification:
  assumes "os_path_exists (fs st) source_file"
  shows "snd (try_block st source_file dest_file)
           = (case shutil_copy2 (fs st) source_file dest_file of Inl e \<Rightarrow> Some e | Inr f \<Rightarrow> None)
    \<and> fs (fst (try_block st source_file dest_file))
           = (case shutil_copy2 (fs st) source_file dest_file of Inl e \<Rightarrow> fs st | Inr f \<Rightarrow> f)
    \<and> (\<forall>f. shutil_copy2 (fs st) source_file dest_file = Inr f \<and> \<not> os_path_isdir (fs st) dest_file
          \<longrightarrow> (\<exists>nm mt c. resolve (fs st) source_file = Some (File nm mt c True)
                 \<and> resolve f dest_file = Some (File (last dest_file) mt c True)))
    \<and> (\<forall>ms md. os_path_getmtime (fs st) source_file = Inr ms
          \<and> os_path_getmtime (fs st) dest_file = Inr md \<and> ms \<le> md
          \<longrightarrow> copied_files_list (fst (try_block st source_file dest_file)) = copied_files_list st
            \<and> modified_files_list (fst (try_block st source_file dest_file)) = modified_files_list st)
    \<and> fs (fst (file_step t rootd dest_path st file))
        = fs (fst (try_block st (rootd @ [file]) (dest_path @ [file])))"
proof (intro conjI allI impI)
  show "fs (fst (file_step t rootd dest_path st file))
        = fs (fst (try_block st (rootd @ [file]) (dest_path @ [file])))"
    by (rule file_step_is_try_block(1))
next
  show "snd (try_block st source_file dest_file)
           = (case shutil_copy2 (fs st) source_file dest_file of Inl e \<Rightarrow> Some e | Inr f \<Rightarrow> None)"
    by (rule try_block_copies(1)[OF assms])
  show "fs (fst (try_block st source_file dest_file))
           = (case shutil_copy2 (fs st) source_file dest_file of Inl e \<Rightarrow> fs st | Inr f \<Rightarrow> f)"
    by (rule try_block_copies(2)[OF assms])
next
  fix f assume "shutil_copy2 (fs st) source_file dest_file = Inr f \<and> \<not> os_path_isdir (fs st) dest_file"
  then show "\<exists>nm mt c. resolve (fs st) source_file = Some (File nm mt c True)
                 \<and> resolve f dest_file = Some (File (last dest_file) mt c True)"
    using shutil_copy2_Inr(1)[of "fs st" source_file dest_file f] by simp
next
  fix ms md
  assume a: "os_path_getmtime (fs st) source_file = Inr ms
          \<and> os_path_getmtime (fs st) dest_file = Inr md \<and> ms \<le> md"
  then have "os_path_exists (fs st) dest_file"
    by (auto simp: os_path_getmtime_def os_path_exists_def split: option.splits)
  with a try_block_classifies(1)[of st source_file ms dest_file]
    try_block_classifies(2)[of st source_file ms dest_file md]
  show "copied_files_list (fst (try_block st source_file dest_file)) = copied_files_list st"
    and "modified_files_list (fst (try_block st source_file dest_file)) = modified_files_list st"
    by simp_all
qed

lemma walk_stale: "os_walk stale_fs [''src''] = [([''src''], [], [''a.txt''])]"
  by (simp add: os_walk_def stale_fs_def)

lemma run_stale:
  "run ''t'' stale_fs [''src''] [''dst''] =
     (Dir [] 0 True
        [Dir ''src'' 1 True [File ''a.txt'' 10 ''hello'' True],
         Dir ''dst'' 2 True [File ''a.txt'' 10 ''hello'' True]],
      [progress_update 100,
       backup_finished
         \<lparr>date = ''t'', copied_files = 0, modified_files = 0, copied_folders = 0,
          modified_folders = 1, source = [''src''], destination = [''dst''], errors = []\<rparr>])"
  by (simp add: run_def run_MAC_def walk_stale count_files_def os_path_exists_def)
     (simp add: stale_fs_def init_state_def dir_step_def file_step_def try_block_def
        os_path_relpath_def os_path_exists_def os_path_getmtime_def shutil_copy2_def
        os_path_isdir_def normpath_def Let_def make_result_def progress_1_1)

theorem copy_whatever_the_classification_witness:
  "os_path_exists (fs (init_state stale_fs)) [''src'', ''a.txt'']
   \<and> os_path_getmtime (fs (init_state stale_fs)) [''src'', ''a.txt''] = Inr 10
   \<and> os_path_getmtime (fs (init_state stale_fs)) [''dst'', ''.'', ''a.txt''] = Inr 99
   \<and> snd (try_block (init_state stale_fs) [''src'', ''a.txt''] [''dst'', ''.'', ''a.txt'']) = None
   \<and> resolve (fs (fst (try_block (init_state stale_fs) [''src'', ''a.txt''] [''dst'', ''.'', ''a.txt''])))
        [''dst'', ''.'', ''a.txt''] = Some (File ''a.txt'' 10 ''hello'' True)
   \<and> copied_files_list (fst (try_block (init_state stale_fs) [''src'', ''a.txt''] [''dst'', ''.'', ''a.txt''])) = []
   \<and> modified_files_list (fst (try_block (init_state stale_fs) [''src'', ''a.txt''] [''dst'', ''.'', ''a.txt''])) = []
   \<and> run ''t'' stale_fs [''src''] [''dst''] =
     (Dir [] 0 True
        [Dir ''src'' 1 True [File ''a.txt'' 10 ''hello'' True],
         Dir ''dst'' 2 True [File ''a.txt'' 10 ''hello'' True]],
      [progress_update 100,
       backup_finished
         \<lparr>date = ''t'', copied_files = 0, modified_files = 0, copied_folders = 0,
          modified_folders = 1, source = [''src''], destination = [''dst''], errors = []\<rparr>])"
proof -
  have h: "os_path_exists (fs (init_state stale_fs)) [''src'', ''a.txt'']"
    by (simp add: init_state_def stale_fs_def os_path_exists_def)
  have c: "shutil_copy2 (fs (init_state stale_fs)) [''src'', ''a.txt''] [''dst'', ''.'', ''a.txt'']
      = Inr (Dir [] 0 True
        [Dir ''src'' 1 True [File ''a.txt'' 10 ''hello'' True],
         Dir ''dst'' 2 True [File ''a.txt'' 10 ''hello'' True]])"
    by (simp add: init_state_def stale_fs_def shutil_copy2_def os_path_isdir_def os_path_exists_def
        normpath_def Let_def)
  show ?thesis
    using h copy_whatever_the_classification[OF h, of "[''dst'', ''.'', ''a.txt'']"]
    by (simp add: c run_stale) (simp add: init_state_def stale_fs_def os_path_getmtime_def)
qed


lemma change_step_classifies:
  assumes "os_path_getsize fs0 (r @ [f]) = Inr sz"
    and "os_path_getmtime fs0 (r @ [f]) = Inr ms"
  shows "\<not> os_path_exists fs0 (dp @ [f]) \<Longrightarrow>
           change_step fs0 r dp (news, mods, total_size) f
             = Inr (news @ [pstr (dp @ [f])], mods, total_size + sz)"
    and "os_path_getmtime fs0 (dp @ [f]) = Inr md \<Longrightarrow>
           change_step fs0 r dp (news, mods, total_size) f
             = Inr (news, if ms > md then mods @ [pstr (dp @ [f])] else mods,
                    if ms > md then total_size + sz else total_size)"
  using assms
  by (auto simp: change_step_def Let_def os_path_getmtime_def os_path_exists_def
      split: option.splits)

lemma os_path_getsize_exists: "os_path_exists fs0 p \<Longrightarrow> \<exists>sz. os_path_getsize fs0 p = Inr sz"
  by (auto simp: os_path_getsize_def os_path_exists_def split: option.splits node.splits)

lemma os_path_getmtime_exists: "os_path_exists fs0 p \<Longrightarrow> \<exists>m. os_path_getmtime fs0 p = Inr m"
  by (auto simp: os_path_getmtime_def os_path_exists_def split: option.splits)

lemma changes_files_in_sync:
  assumes "list_all (\<lambda>file. os_path_exists fs0 (r @ [file]) \<and> os_path_exists fs0 (dp @ [file])
                 \<and> os_path_getmtime fs0 (r @ [file]) = os_path_getmtime fs0 (dp @ [file])) fl"
  shows "changes_files fs0 r dp acc fl = Inr acc"
  using assms
proof (induction fl)
  case Nil
  show ?case by simp
next
  case (Cons f fl)
  then have ex: "os_path_exists fs0 (r @ [f])" "os_path_exists fs0 (dp @ [f])"
    and eq: "os_path_getmtime fs0 (r @ [f]) = os_path_getmtime fs0 (dp @ [f])"
    and rest: "list_all (\<lambda>file. os_path_exists fs0 (r @ [file]) \<and> os_path_exists fs0 (dp @ [file])
                 \<and> os_path_getmtime fs0 (r @ [file]) = os_path_getmtime fs0 (dp @ [file])) fl"
    by simp_all
  obtain sz where sz: "os_path_getsize fs0 (r @ [f]) = Inr sz"
    using os_path_getsize_exists[OF ex(1)] by blast
  obtain ms where ms: "os_path_getmtime fs0 (r @ [f]) = Inr ms"
    using os_path_getmtime_exists[OF ex(1)] by blast
  obtain news mods total_size where acc: "acc = (news, mods, total_size)" by (cases acc)
  from eq ms have "os_path_getmtime fs0 (dp @ [f]) = Inr ms" by simp
  from change_step_classifies(2)[OF sz ms this, of news mods total_size]
  have "change_step fs0 r dp acc f = Inr acc" by (simp add: acc)
  with Cons.IH[OF rest] show ?case by simp
qed

lemma changes_walk_in_sync:
  assumes "list_all
       (\<lambda>(rootd, dirs, files).
          os_path_exists fs0 (dst @ os_path_relpath rootd src)
          \<and> list_all
               (\<lambda>file.
                  os_path_exists fs0 (rootd @ [file])
                  \<and> os_path_exists fs0 (dst @ os_path_relpath rootd src @ [file])
                  \<and> os_path_getmtime fs0 (rootd @ [file])
                      = os_path_getmtime fs0 (dst @ os_path_relpath rootd src @ [file]))
               files) w"
  shows "changes_walk fs0 src dst acc w = Inr acc"
  using assms
proof (induction w)
  case Nil
  show ?case by simp
next
  case (Cons x w)
  obtain r ds fl where x: "x = (r, ds, fl)" by (cases x)
  from Cons.prems have ex: "os_path_exists fs0 (dst @ os_path_relpath r src)"
    and fl: "list_all (\<lambda>file. os_path_exists fs0 (r @ [file])
                  \<and> os_path_exists fs0 ((dst @ os_path_relpath r src) @ [file])
                  \<and> os_path_getmtime fs0 (r @ [file])
                      = os_path_getmtime fs0 ((dst @ os_path_relpath r src) @ [file])) fl"
    by (simp_all add: x)
  have "changes_dir fs0 src dst acc x = Inr acc"
    using ex changes_files_in_sync[OF fl, of acc] by (simp add: changes_dir_def x Let_def)
  with Cons show ?case by simp
qed

subsection \<open>What the walk visits\<close>

lemma lookup_entry_distinct:
  "distinct (map name es) \<Longrightarrow> e \<in> set es \<Longrightarrow> lookup_entry (name e) es = Some e"
  by (induction es) (auto simp: image_iff)

lemma lookup_entry_member:
  "f \<in> name ` set es \<Longrightarrow> \<exists>e. lookup_entry f es = Some e"
  by (induction es) auto

lemma lookup_entry_set: "lookup_entry x es = Some e \<Longrightarrow> e \<in> set es"
  by (induction es) (auto split: if_splits)

lemma wf_node_resolve: "wf_node n \<Longrightarrow> resolve n q = Some m \<Longrightarrow> wf_node m"
proof (induction n q rule: resolve.induct)
  case (1 n)
  then show ?case by simp
next
  case (2 nm mt c r x xs)
  then show ?case by simp
next
  case (3 nm mt l es x xs)
  show ?case
  proof (cases "x = ''.''")
    case True
    with 3 show ?thesis by simp
  next
    case False
    with "3.prems"(2) obtain e where e: "lookup_entry x es = Some e" "resolve e xs = Some m"
      by (auto split: option.splits)
    from lookup_entry_set[OF e(1)] "3.prems"(1) have "wf_node e" by simp
    from "3.IH"(2)[OF False e(1) this e(2)] show ?thesis .
  qed
qed

lemma walk_node_visits:
  "wf_node n \<Longrightarrow> (r, ds, fl) \<in> set (walk_node tp n) \<Longrightarrow>
     \<exists>q nm mt es. r = tp @ q \<and> resolve n q = Some (Dir nm mt True es)
        \<and> ds = map name (filter is_dir es) \<and> fl = map name (filter (\<lambda>e. \<not> is_dir e) es)"
proof (induction tp n arbitrary: r ds fl rule: walk_node.induct)
  case (1 tp nm mt c r')
  then show ?case by simp
next
  case (2 tp nm mt l es)
  from "2.prems"(2) have l: "l" by (auto split: if_splits)
  from "2.prems"(2) l consider
      (here) "r = tp" "ds = map name (filter is_dir es)" "fl = map name (filter (\<lambda>e. \<not> is_dir e) es)"
    | (below) e where "e \<in> set es" "(r, ds, fl) \<in> set (walk_node (tp @ [name e]) e)"
    by auto
  then show ?case
  proof cases
    case here
    with l show ?thesis by (auto intro!: exI[of _ "[]"])
  next
    case below
    from "2.prems"(1) below(1) have wfe: "wf_node e" and d: "distinct (map name es)"
      and nodot: "''.'' \<notin> name ` set es" by auto
    from below(1) have "name e \<in> name ` set es" by (rule imageI)
    with nodot have nd: "name e \<noteq> ''.''" by metis
    from "2.IH"[OF _ below(1) wfe below(2)] l obtain q nm' mt' es' where
      q: "r = (tp @ [name e]) @ q" "resolve e q = Some (Dir nm' mt' True es')"
         "ds = map name (filter is_dir es')" "fl = map name (filter (\<lambda>e. \<not> is_dir e) es')"
      by auto
    have "resolve (Dir nm mt l es) (name e # q) = Some (Dir nm' mt' True es')"
      using nd lookup_entry_distinct[OF d below(1)] q(2) by simp
    with q show ?thesis by (auto intro!: exI[of _ "name e # q"])
  qed
qed

lemma os_walk_visits:
  assumes wf: "wf_node fs0" and v: "(r, ds, fl) \<in> set (os_walk fs0 src)"
  shows "\<exists>nm mt es. resolve fs0 r = Some (Dir nm mt True es)
           \<and> ds = map name (filter is_dir es) \<and> fl = map name (filter (\<lambda>e. \<not> is_dir e) es)"
    and "f \<in> set fl \<Longrightarrow> os_path_exists fs0 (r @ [f])"
proof -
  from v obtain n where n: "resolve fs0 src = Some n" and vn: "(r, ds, fl) \<in> set (walk_node src n)"
    by (cases "resolve fs0 src") (auto simp: os_walk_def)
  from wf_node_resolve[OF wf n] have wfn: "wf_node n" .
  from walk_node_visits[OF wfn vn] obtain q nm mt es where
    q: "r = src @ q" "resolve n q = Some (Dir nm mt True es)"
       "ds = map name (filter is_dir es)" "fl = map name (filter (\<lambda>e. \<not> is_dir e) es)"
    by blast
  have rr: "resolve fs0 r = Some (Dir nm mt True es)"
    using n q(1,2) by (simp add: resolve_append)
  with q show "\<exists>nm mt es. resolve fs0 r = Some (Dir nm mt True es)
           \<and> ds = map name (filter is_dir es) \<and> fl = map name (filter (\<lambda>e. \<not> is_dir e) es)"
    by blast
  show "f \<in> set fl \<Longrightarrow> os_path_exists fs0 (r @ [f])"
  proof -
    assume f: "f \<in> set fl"
    from wf_node_resolve[OF wf rr] have "''.'' \<notin> name ` set es" by simp
    moreover from f q(4) have fin: "f \<in> name ` set es" by auto
    ultimately have "f \<noteq> ''.''" by metis
    moreover from lookup_entry_member[OF fin] obtain e where "lookup_entry f es = Some e" by blast
    ultimately show ?thesis
      using rr by (simp add: os_path_exists_def resolve_append)
  qed
qed

subsection \<open>The diff pass\<close>

lemma change_step_total:
  assumes "os_path_exists fs0 (r @ [f])"
  shows "\<exists>c. change_step fs0 r dp acc f = Inr c"
proof -
  obtain sz where sz: "os_path_getsize fs0 (r @ [f]) = Inr sz"
    using os_path_getsize_exists[OF assms] by blast
  obtain ms where ms: "os_path_getmtime fs0 (r @ [f]) = Inr ms"
    using os_path_getmtime_exists[OF assms] by blast
  obtain news mods total_size where acc: "acc = (news, mods, total_size)" by (cases acc)
  show ?thesis
  proof (cases "os_path_exists fs0 (dp @ [f])")
    case True
    then obtain md where "os_path_getmtime fs0 (dp @ [f]) = Inr md"
      using os_path_getmtime_exists by blast
    from change_step_classifies(2)[OF sz ms this] show ?thesis by (simp add: acc)
  next
    case False
    from change_step_classifies(1)[OF sz ms this] show ?thesis by (simp add: acc)
  qed
qed

lemma changes_files_total:
  "(\<forall>f\<in>set fl. os_path_exists fs0 (r @ [f])) \<Longrightarrow> \<exists>c. changes_files fs0 r dp acc fl = Inr c"
proof (induction fl arbitrary: acc)
  case Nil
  show ?case by (cases acc) simp
next
  case (Cons f fl)
  then obtain c where "change_step fs0 r dp acc f = Inr c"
    using change_step_total[of fs0 r f dp acc] by auto
  with Cons show ?case by simp
qed

lemma changes_walk_total:
  "(\<forall>(r, ds, fl)\<in>set w. \<forall>f\<in>set fl. os_path_exists fs0 (r @ [f])) \<Longrightarrow>
     \<exists>c. changes_walk fs0 src dst acc w = Inr c"
proof (induction w arbitrary: acc)
  case Nil
  show ?case by (cases acc) simp
next
  case (Cons x w)
  obtain r ds fl where x: "x = (r, ds, fl)" by (cases x)
  with Cons.prems have "\<forall>f\<in>set fl. os_path_exists fs0 (r @ [f])" by simp
  from changes_files_total[OF this] have "\<exists>c. changes_dir fs0 src dst acc x = Inr c"
    unfolding changes_dir_def x Let_def prod.case by blast
  then obtain c where "changes_dir fs0 src dst acc x = Inr c" by blast
  with Cons show ?case by simp
qed

lemma change_step_Inr:
  assumes "change_step fs0 r dp (news, mods, sz) f = Inr c"
  shows "c = (news @ (if os_path_exists fs0 (dp @ [f]) then [] else [pstr (dp @ [f])]),
              mods @ (if is_modified fs0 (r @ [f]) (dp @ [f]) then [pstr (dp @ [f])] else []),
              sz + (if \<not> os_path_exists fs0 (dp @ [f]) \<or> is_modified fs0 (r @ [f]) (dp @ [f])
                    then size_of_file fs0 (r @ [f]) else 0))"
  using assms
  by (auto simp: change_step_def Let_def is_modified_def size_of_file_def
      split: sum.splits if_splits)

lemma changes_files_Inr:
  "changes_files fs0 r dp (news, mods, sz) fl = Inr c \<Longrightarrow>
     c = (news @ map (\<lambda>f. pstr (dp @ [f])) (filter (\<lambda>f. \<not> os_path_exists fs0 (dp @ [f])) fl),
          mods @ map (\<lambda>f. pstr (dp @ [f])) (filter (\<lambda>f. is_modified fs0 (r @ [f]) (dp @ [f])) fl),
          sz + sum_list (map (\<lambda>f. size_of_file fs0 (r @ [f]))
                 (filter (\<lambda>f. \<not> os_path_exists fs0 (dp @ [f]) \<or> is_modified fs0 (r @ [f]) (dp @ [f])) fl)))"
proof (induction fl arbitrary: news mods sz)
  case Nil
  then show ?case by simp
next
  case (Cons f fl)
  from Cons.prems obtain c1 where c1: "change_step fs0 r dp (news, mods, sz) f = Inr c1"
    and rest: "changes_files fs0 r dp c1 fl = Inr c"
    by (auto split: sum.splits)
  note s = change_step_Inr[OF c1]
  from rest have "changes_files fs0 r dp
      (news @ (if os_path_exists fs0 (dp @ [f]) then [] else [pstr (dp @ [f])]),
       mods @ (if is_modified fs0 (r @ [f]) (dp @ [f]) then [pstr (dp @ [f])] else []),
       sz + (if \<not> os_path_exists fs0 (dp @ [f]) \<or> is_modified fs0 (r @ [f]) (dp @ [f])
             then size_of_file fs0 (r @ [f]) else 0)) fl = Inr c"
    unfolding s .
  from Cons.IH[OF this] show ?case by simp
qed

lemma changes_walk_Inr:
  "changes_walk fs0 src dst (news, mods, sz) w = Inr c \<Longrightarrow>
     c = (news @ fst (expected_changes fs0 src dst w),
          mods @ fst (snd (expected_changes fs0 src dst w)),
          sz + snd (snd (expected_changes fs0 src dst w)))"
proof (induction w arbitrary: news mods sz)
  case Nil
  then show ?case by (simp add: expected_changes_def)
next
  case (Cons x w)
  obtain r ds fl where x: "x = (r, ds, fl)" by (cases x)
  define dp where "dp = dst @ os_path_relpath r src"
  define news1 where "news1 = news @ (if os_path_exists fs0 dp then [] else [''New folder: '' @ pstr dp])"
  from Cons.prems obtain c1 where c1: "changes_dir fs0 src dst (news, mods, sz) x = Inr c1"
    and rest: "changes_walk fs0 src dst c1 w = Inr c"
    by (auto split: sum.splits)
  from c1 have "changes_files fs0 r dp (news1, mods, sz) fl = Inr c1"
    by (auto simp: changes_dir_def x Let_def dp_def news1_def split: if_splits)
  note s = changes_files_Inr[OF this]
  from rest have "changes_walk fs0 src dst
     (news1 @ map (\<lambda>f. pstr (dp @ [f])) (filter (\<lambda>f. \<not> os_path_exists fs0 (dp @ [f])) fl),
      mods @ map (\<lambda>f. pstr (dp @ [f])) (filter (\<lambda>f. is_modified fs0 (r @ [f]) (dp @ [f])) fl),
      sz + sum_list (map (\<lambda>f. size_of_file fs0 (r @ [f]))
             (filter (\<lambda>f. \<not> os_path_exists fs0 (dp @ [f]) \<or> is_modified fs0 (r @ [f]) (dp @ [f])) fl))) w
     = Inr c"
    unfolding s .
  from Cons.IH[OF this] show ?case
    by (simp add: expected_changes_def x dp_def news1_def)
qed

lemma get_changes_Inr:
  "snd (get_changes fs0 src dst) = Inr c \<Longrightarrow> c = expected_changes fs0 src dst (os_walk fs0 src)"
  using changes_walk_Inr[of fs0 src dst "[]" "[]" 0 "os_walk fs0 src" c]
  by (simp add: get_changes_def)


lemma get_changes_total:
  assumes "\<forall>(r, ds, fl)\<in>set (os_walk fs0 src). \<forall>f\<in>set fl. os_path_exists fs0 (r @ [f])"
  shows "snd (get_changes fs0 src dst) = Inr (expected_changes fs0 src dst (os_walk fs0 src))"
proof -
  from changes_walk_total[OF assms, of src dst "([], [], 0)"] obtain c where
    c: "snd (get_changes fs0 src dst) = Inr c" by (auto simp: get_changes_def)
  from get_changes_Inr[OF c] c show ?thesis by simp
qed

lemma is_modified_iff:
  "os_path_getmtime fs0 s = Inr ms \<Longrightarrow> os_path_getmtime fs0 d = Inr md \<Longrightarrow>
     is_modified fs0 s d \<longleftrightarrow> ms > md"
  by (auto simp: is_modified_def os_path_getmtime_def os_path_exists_def split: option.splits)

text \<open>
  Claim C4. Whenever \<^verbatim>\<open>get_changes\<close> returns, its three results are exactly the expected
  ones: the modified entries are the files that exist at the destination and whose source
  has a strictly greater modification time, in the order of the walk; and it returns
  whenever every file the walk lists can be examined. For two files with modification
  times, \<^const>\<open>is_modified\<close> holds exactly when the time of the source is strictly
  greater, so with equal times (or an older source) the file is listed nowhere. The same
  test decides in one round of the file loop of the diff and in the \<^verbatim>\<open>try\<close> block that
  every round of the file loop of \<^verbatim>\<open>run\<close> executes. The diff of a tree that is in step with
  its source reports no new entry, no modified entry and zero bytes.
\<close>

theorem newer_source_means_modified:
  "(snd (get_changes fs0 src dst) = Inr c \<longrightarrow> c = expected_changes fs0 src dst (os_walk fs0 src))
   \<and> ((\<forall>(r, ds, fl)\<in>set (os_walk fs0 src). \<forall>f\<in>set fl. os_path_exists fs0 (r @ [f]))
        \<longrightarrow> snd (get_changes fs0 src dst) = Inr (expected_changes fs0 src dst (os_walk fs0 src)))
   \<and> (os_path_getmtime fs0 source_file = Inr ms \<and> os_path_getmtime fs0 dest_file = Inr md
        \<longrightarrow> (is_modified fs0 source_file dest_file \<longleftrightarrow> ms > md))
   \<and> (os_path_getsize fs0 (rootd @ [file]) = Inr sz
      \<and> os_path_getmtime fs0 (rootd @ [file]) = Inr ms
      \<and> os_path_getmtime fs0 (dest_path @ [file]) = Inr md
    \<longrightarrow> change_step fs0 rootd dest_path (news, mods, total_size) file
          = Inr (news, if ms > md then mods @ [pstr (dest_path @ [file])] else mods,
                 if ms > md then total_size + sz else total_size))
   \<and> (os_path_getmtime (fs st) source_file = Inr ms
      \<and> os_path_getmtime (fs st) dest_file = Inr md
    \<longrightarrow> modified_files_list (fst (try_block st source_file dest_file))
          = (if ms > md then modified_files_list st @ [dest_file] else modified_files_list st)
        \<and> copied_files_list (fst (try_block st source_file dest_file)) = copied_files_list st)
   \<and> modified_files_list (fst (file_step t rootd dest_path st file))
        = modified_files_list (fst (try_block st (rootd @ [file]) (dest_path @ [file])))
   \<and> (in_sync fs0 src dst \<longrightarrow> get_changes fs0 src dst = (fs0, Inr ([], [], 0)))"
proof (intro conjI impI)
  assume "snd (get_changes fs0 src dst) = Inr c"
  then show "c = expected_changes fs0 src dst (os_walk fs0 src)" by (rule get_changes_Inr)
next
  assume "\<forall>(r, ds, fl)\<in>set (os_walk fs0 src). \<forall>f\<in>set fl. os_path_exists fs0 (r @ [f])"
  then show "snd (get_changes fs0 src dst) = Inr (expected_changes fs0 src dst (os_walk fs0 src))"
    by (rule get_changes_total)
next
  assume "os_path_getmtime fs0 source_file = Inr ms \<and> os_path_getmtime fs0 dest_file = Inr md"
  then show "is_modified fs0 source_file dest_file \<longleftrightarrow> ms > md"
    using is_modified_iff[of fs0 source_file ms dest_file md] by simp
next
  assume "os_path_getsize fs0 (rootd @ [file]) = Inr sz
      \<and> os_path_getmtime fs0 (rootd @ [file]) = Inr ms
      \<and> os_path_getmtime fs0 (dest_path @ [file]) = Inr md"
  then show "change_step fs0 rootd dest_path (news, mods, total_size) file
          = Inr (news, if ms > md then mods @ [pstr (dest_path @ [file])] else mods,
                 if ms > md then total_size + sz else total_size)"
    using change_step_classifies(2)[of fs0 rootd "file" sz ms dest_path md news mods total_size]
    by simp
next
  assume a: "os_path_getmtime (fs st) source_file = Inr ms
      \<and> os_path_getmtime (fs st) dest_file = Inr md"
  then have "os_path_exists (fs st) dest_file"
    by (auto simp: os_path_getmtime_def os_path_exists_def split: option.splits)
  with a try_block_classifies(1)[of st source_file ms dest_file]
    try_block_classifies(2)[of st source_file ms dest_file md]
  show "modified_files_list (fst (try_block st source_file dest_file))
          = (if ms > md then modified_files_list st @ [dest_file] else modified_files_list st)"
    and "copied_files_list (fst (try_block st source_file dest_file)) = copied_files_list st"
    by simp_all
next
  show "modified_files_list (fst (file_step t rootd dest_path st file))
        = modified_files_list (fst (try_block st (rootd @ [file]) (dest_path @ [file])))"
    by (rule file_step_is_try_block(3))
next
  assume "in_sync fs0 src dst"
  then show "get_changes fs0 src dst = (fs0, Inr ([], [], 0))"
    using changes_walk_in_sync[of fs0 dst src "os_walk fs0 src" "([], [], 0)"]
    by (simp add: in_sync_def get_changes_def)
qed

lemma expected_sample:
  "expected_changes sample_fs [''src''] [''dst'']
     [([''src''], [''sub''], [''a.txt'']), ([''src'', ''sub''], [], [''b.txt'', ''c.txt''])]
   = ([''/dst/./a.txt'', ''/dst/sub/c.txt''], [''/dst/sub/b.txt''], 14)"
proof -
  have ex: "\<not> os_path_exists sample_fs [''dst'', ''.'', ''a.txt'']"
    "os_path_exists sample_fs [''dst'', ''.'']"
    "os_path_exists sample_fs [''dst'', ''sub'']"
    "os_path_exists sample_fs [''dst'', ''sub'', ''b.txt'']"
    "\<not> os_path_exists sample_fs [''dst'', ''sub'', ''c.txt'']"
    by (simp_all add: sample_fs_def os_path_exists_def)
  have m: "is_modified sample_fs [''src'', ''sub'', ''b.txt''] [''dst'', ''sub'', ''b.txt'']"
    "\<not> is_modified sample_fs [''src'', ''sub'', ''c.txt''] [''dst'', ''sub'', ''c.txt'']"
    "\<not> is_modified sample_fs [''src'', ''a.txt''] [''dst'', ''.'', ''a.txt'']"
    by (simp_all add: is_modified_def ex) (simp add: sample_fs_def os_path_getmtime_def)
  have sz: "size_of_file sample_fs [''src'', ''a.txt''] = 5"
    "size_of_file sample_fs [''src'', ''sub'', ''b.txt''] = 3"
    "size_of_file sample_fs [''src'', ''sub'', ''c.txt''] = 6"
    by (simp_all add: size_of_file_def os_path_getsize_def sample_fs_def)
  show ?thesis
    by (simp add: expected_changes_def os_path_relpath_def ex m sz pstr_def)
qed

theorem newer_source_means_modified_witness:
  "os_walk sample_fs [''src'']
     = [([''src''], [''sub''], [''a.txt'']), ([''src'', ''sub''], [], [''b.txt'', ''c.txt''])]
   \<and> os_path_exists sample_fs ([''src''] @ [''a.txt''])
   \<and> os_path_exists sample_fs ([''src'', ''sub''] @ [''b.txt''])
   \<and> os_path_exists sample_fs ([''src'', ''sub''] @ [''c.txt''])
   \<and> get_changes sample_fs [''src''] [''dst'']
       = (sample_fs, Inr ([''/dst/./a.txt'', ''/dst/sub/c.txt''], [''/dst/sub/b.txt''], 14))
   \<and> os_path_getsize sample_fs ([''src'', ''sub''] @ [''b.txt'']) = Inr 3
   \<and> os_path_getmtime sample_fs ([''src'', ''sub''] @ [''b.txt'']) = Inr 20
   \<and> os_path_getmtime sample_fs ([''dst'', ''sub''] @ [''b.txt'']) = Inr 15
   \<and> is_modified sample_fs ([''src'', ''sub''] @ [''b.txt'']) ([''dst'', ''sub''] @ [''b.txt''])
   \<and> change_step sample_fs [''src'', ''sub''] [''dst'', ''sub''] ([], [], 0) ''b.txt''
       = Inr ([], [''/dst/sub/b.txt''], 3)
   \<and> os_path_getmtime (fs (init_state synced_fs)) [''src'', ''a.txt''] = Inr 10
   \<and> os_path_getmtime (fs (init_state synced_fs)) [''dst'', ''.'', ''a.txt''] = Inr 10
   \<and> \<not> is_modified (fs (init_state synced_fs)) [''src'', ''a.txt''] [''dst'', ''.'', ''a.txt'']
   \<and> modified_files_list
        (fst (try_block (init_state synced_fs) [''src'', ''a.txt''] [''dst'', ''.'', ''a.txt''])) = []
   \<and> copied_files_list
        (fst (try_block (init_state synced_fs) [''src'', ''a.txt''] [''dst'', ''.'', ''a.txt''])) = []
   \<and> in_sync synced_fs [''src''] [''dst'']
   \<and> get_changes synced_fs [''src''] [''dst''] = (synced_fs, Inr ([], [], 0))
   \<and> os_path_getmtime stale_fs [''src'', ''a.txt''] = Inr 10
   \<and> os_path_getmtime stale_fs [''dst'', ''.'', ''a.txt''] = Inr 99
   \<and> \<not> is_modified stale_fs [''src'', ''a.txt''] [''dst'', ''.'', ''a.txt'']"
proof -
  note T = newer_source_means_modified
  have ex: "os_path_exists sample_fs ([''src''] @ [''a.txt''])"
    "os_path_exists sample_fs ([''src'', ''sub''] @ [''b.txt''])"
    "os_path_exists sample_fs ([''src'', ''sub''] @ [''c.txt''])"
    by (simp_all add: os_path_exists_def sample_fs_def)
  have h1: "os_path_getsize sample_fs ([''src'', ''sub''] @ [''b.txt'']) = Inr 3
   \<and> os_path_getmtime sample_fs ([''src'', ''sub''] @ [''b.txt'']) = Inr 20
   \<and> os_path_getmtime sample_fs ([''dst'', ''sub''] @ [''b.txt'']) = Inr 15"
    by (simp add: os_path_getsize_def os_path_getmtime_def sample_fs_def)
  have h2: "os_path_getmtime (fs (init_state synced_fs)) [''src'', ''a.txt''] = Inr 10
      \<and> os_path_getmtime (fs (init_state synced_fs)) [''dst'', ''.'', ''a.txt''] = Inr 10"
    by (simp add: os_path_getmtime_def synced_fs_def init_state_def)
  have h4: "os_path_getmtime stale_fs [''src'', ''a.txt''] = Inr 10
      \<and> os_path_getmtime stale_fs [''dst'', ''.'', ''a.txt''] = Inr 99"
    by (simp add: os_path_getmtime_def stale_fs_def)
  have w: "os_walk synced_fs [''src''] = [([''src''], [], [''a.txt''])]"
    by (simp add: os_walk_def synced_fs_def)
  have h3: "in_sync synced_fs [''src''] [''dst'']"
    by (simp add: in_sync_def w os_path_relpath_def)
       (simp add: synced_fs_def os_path_exists_def os_path_getmtime_def)
  have all: "\<forall>(r, ds, fl)\<in>set (os_walk sample_fs [''src'']). \<forall>f\<in>set fl. os_path_exists sample_fs (r @ [f])"
    using ex by (simp add: walk_sample)
  have g1: "snd (get_changes sample_fs [''src''] [''dst''])
       = Inr (expected_changes sample_fs [''src''] [''dst''] (os_walk sample_fs [''src'']))"
    using all by (rule T[THEN conjunct2, THEN conjunct1, THEN mp])
  have g2: "is_modified sample_fs ([''src'', ''sub''] @ [''b.txt'']) ([''dst'', ''sub''] @ [''b.txt''])
         \<longleftrightarrow> (20::int) > 15"
    using h1 by (intro T[THEN conjunct2, THEN conjunct2, THEN conjunct1, THEN mp]) simp
  have g3: "change_step sample_fs [''src'', ''sub''] [''dst'', ''sub''] ([], [], 0) ''b.txt''
          = Inr ([], if (20::int) > 15 then [] @ [pstr ([''dst'', ''sub''] @ [''b.txt''])] else [],
                 if (20::int) > 15 then 0 + 3 else 0)"
    using h1 by (intro T[THEN conjunct2, THEN conjunct2, THEN conjunct2, THEN conjunct1, THEN mp]) simp
  have g4: "\<not> is_modified (fs (init_state synced_fs)) [''src'', ''a.txt''] [''dst'', ''.'', ''a.txt'']"
    using T[THEN conjunct2, THEN conjunct2, THEN conjunct1, THEN mp, OF h2] by simp
  have g5: "modified_files_list
        (fst (try_block (init_state synced_fs) [''src'', ''a.txt''] [''dst'', ''.'', ''a.txt'']))
          = (if (10::int) > 10 then modified_files_list (init_state synced_fs) @ [[''dst'', ''.'', ''a.txt'']]
             else modified_files_list (init_state synced_fs))
        \<and> copied_files_list
        (fst (try_block (init_state synced_fs) [''src'', ''a.txt''] [''dst'', ''.'', ''a.txt'']))
          = copied_files_list (init_state synced_fs)"
    using h2
    by (intro T[THEN conjunct2, THEN conjunct2, THEN conjunct2, THEN conjunct2, THEN conjunct1, THEN mp])
  have g6: "get_changes synced_fs [''src''] [''dst''] = (synced_fs, Inr ([], [], 0))"
    using h3
    by (rule T[THEN conjunct2, THEN conjunct2, THEN conjunct2, THEN conjunct2, THEN conjunct2,
          THEN conjunct2, THEN mp])
  have g7: "\<not> is_modified stale_fs [''src'', ''a.txt''] [''dst'', ''.'', ''a.txt'']"
    using T[THEN conjunct2, THEN conjunct2, THEN conjunct1, THEN mp, OF h4] by simp
  have f1: "fst (get_changes sample_fs [''src''] [''dst'']) = sample_fs"
    by (simp add: get_changes_def)
  have g1': "get_changes sample_fs [''src''] [''dst'']
       = (sample_fs, Inr ([''/dst/./a.txt'', ''/dst/sub/c.txt''], [''/dst/sub/b.txt''], 14))"
    using g1 f1 unfolding walk_sample expected_sample by (simp add: prod_eq_iff)
  have g3': "change_step sample_fs [''src'', ''sub''] [''dst'', ''sub''] ([], [], 0) ''b.txt''
       = Inr ([], [''/dst/sub/b.txt''], 3)"
    using g3 by (simp add: pstr_def)
  have g5': "modified_files_list
        (fst (try_block (init_state synced_fs) [''src'', ''a.txt''] [''dst'', ''.'', ''a.txt''])) = []"
    "copied_files_list
        (fst (try_block (init_state synced_fs) [''src'', ''a.txt''] [''dst'', ''.'', ''a.txt''])) = []"
    using g5 by (simp_all add: init_state_def)
  from g2 have g2': "is_modified sample_fs ([''src'', ''sub''] @ [''b.txt'']) ([''dst'', ''sub''] @ [''b.txt''])"
    by simp
  show ?thesis
    by (intro conjI walk_sample ex g1' g2' g3' g4 g5' g6 g7 h3
        h1[THEN conjunct1] h1[THEN conjunct2, THEN conjunct1] h1[THEN conjunct2, THEN conjunct2]
        h2[THEN conjunct1] h2[THEN conjunct2] h4[THEN conjunct1] h4[THEN conjunct2])
qed

lemma get_changes_sample:
  "get_changes sample_fs [''src''] [''dst'']
     = (sample_fs, Inr ([''/dst/./a.txt'', ''/dst/sub/c.txt''], [''/dst/sub/b.txt''], 14))"
proof -
  have "\<forall>(r, ds, fl)\<in>set (os_walk sample_fs [''src'']). \<forall>f\<in>set fl. os_path_exists sample_fs (r @ [f])"
    by (simp add: walk_sample) (simp add: os_path_exists_def sample_fs_def)
  from get_changes_total[OF this, of "[''dst'']"]
  have "snd (get_changes sample_fs [''src''] [''dst''])
     = Inr ([''/dst/./a.txt'', ''/dst/sub/c.txt''], [''/dst/sub/b.txt''], 14)"
    unfolding walk_sample expected_sample .
  moreover have "fst (get_changes sample_fs [''src''] [''dst'']) = sample_fs"
    by (simp add: get_changes_def)
  ultimately show ?thesis by (simp add: prod_eq_iff)
qed

lemma os_walk_unlistable:
  "resolve fs0 p = Some (Dir nm mt False es) \<Longrightarrow> os_walk fs0 p = []"
  by (simp add: os_walk_def)

text \<open>
  Claim C7, as amended. \<^verbatim>\<open>get_changes\<close> has no check of the source: when the source
  root does not exist, is no directory or cannot be listed, the walk yields nothing and
  the diff succeeds with no new entry, no modified entry and zero bytes. A directory that
  cannot be listed yields nothing, and the walk visits only directories that can be
  listed, so such a directory below the root is passed over; the diff returns whenever
  every file the walk lists can be examined. The function is made of queries only
  (\<^verbatim>\<open>os.walk\<close>, \<^verbatim>\<open>os.path.exists\<close>, \<^verbatim>\<open>os.path.getsize\<close>, \<^verbatim>\<open>os.path.getmtime\<close>), so
  the file system it hands back is the one it received.
\<close>

theorem diff_never_fails:
  "((\<nexists>nm mt es. resolve fs0 src = Some (Dir nm mt True es))
      \<longrightarrow> get_changes fs0 src dst = (fs0, Inr ([], [], 0)))
   \<and> fst (get_changes fs0 src dst) = fs0
   \<and> (resolve fs0 p = Some (Dir nm mt False es) \<longrightarrow> os_walk fs0 p = [])
   \<and> (wf_node fs0 \<and> (rootd, dirs, files) \<in> set (os_walk fs0 src)
        \<longrightarrow> (\<exists>nm mt es. resolve fs0 rootd = Some (Dir nm mt True es)))
   \<and> ((\<forall>(r, ds, fl)\<in>set (os_walk fs0 src). \<forall>f\<in>set fl. os_path_exists fs0 (r @ [f]))
        \<longrightarrow> (\<exists>c. snd (get_changes fs0 src dst) = Inr c))"
proof (intro conjI impI)
  assume "\<nexists>nm mt es. resolve fs0 src = Some (Dir nm mt True es)"
  with os_walk_root(1)[of fs0 src] have "os_walk fs0 src = []" by blast
  then show "get_changes fs0 src dst = (fs0, Inr ([], [], 0))"
    by (simp add: get_changes_def)
next
  show "fst (get_changes fs0 src dst) = fs0" by (simp add: get_changes_def)
next
  assume "resolve fs0 p = Some (Dir nm mt False es)"
  then show "os_walk fs0 p = []" by (rule os_walk_unlistable)
next
  assume "wf_node fs0 \<and> (rootd, dirs, files) \<in> set (os_walk fs0 src)"
  with os_walk_visits(1)[of fs0 rootd dirs files src]
  show "\<exists>nm mt es. resolve fs0 rootd = Some (Dir nm mt True es)" by blast
next
  assume "\<forall>(r, ds, fl)\<in>set (os_walk fs0 src). \<forall>f\<in>set fl. os_path_exists fs0 (r @ [f])"
  from get_changes_total[OF this, of dst]
  show "\<exists>c. snd (get_changes fs0 src dst) = Inr c" by blast
qed

text \<open>
  The claim as stated fails twice. For a source root that does not exist the diff returns
  its empty result instead of failing. And an entry that may not be read is not skipped
  when it is a file: \<^verbatim>\<open>c.txt\<close> may not be read, and the diff lists its copy as new and
  counts its six bytes, since only the metadata of a file are looked at.
\<close>

theorem diff_never_fails_counterexample:
  "get_changes sample_fs [''nosrc''] [''dst''] = (sample_fs, Inr ([], [], 0))
   \<and> resolve sample_fs [''src'', ''sub'', ''c.txt''] = Some (File ''c.txt'' 20 ''secret'' False)
   \<and> get_changes sample_fs [''src''] [''dst'']
       = (sample_fs, Inr ([''/dst/./a.txt'', ''/dst/sub/c.txt''], [''/dst/sub/b.txt''], 14))"
proof -
  have "get_changes sample_fs [''nosrc''] [''dst''] = (sample_fs, Inr ([], [], 0))"
    by (simp add: get_changes_def os_walk_def sample_fs_def)
  moreover have "resolve sample_fs [''src'', ''sub'', ''c.txt''] = Some (File ''c.txt'' 20 ''secret'' False)"
    by (simp add: sample_fs_def)
  ultimately show ?thesis using get_changes_sample by simp
qed

theorem diff_never_fails_witness:
  "(\<nexists>nm mt es. resolve locked_fs [''nosrc''] = Some (Dir nm mt True es))
   \<and> get_changes locked_fs [''nosrc''] [''dst''] = (locked_fs, Inr ([], [], 0))
   \<and> resolve locked_fs [''src'', ''priv'']
        = Some (Dir ''priv'' 3 False [File ''key'' 4 ''secret'' True])
   \<and> os_walk locked_fs [''src'', ''priv''] = []
   \<and> wf_node locked_fs
   \<and> os_walk locked_fs [''src''] = [([''src''], [''priv''], [''a.txt''])]
   \<and> resolve locked_fs [''src''] =
        Some (Dir ''src'' 1 True
               [File ''a.txt'' 10 ''hello'' True,
                Dir ''priv'' 3 False [File ''key'' 4 ''secret'' True]])
   \<and> os_path_exists locked_fs ([''src''] @ [''a.txt''])
   \<and> get_changes locked_fs [''src''] [''dst''] = (locked_fs, Inr ([''/dst/./a.txt''], [], 5))"
proof -
  have h1: "\<nexists>nm mt es. resolve locked_fs [''nosrc''] = Some (Dir nm mt True es)"
    by (simp add: locked_fs_def)
  have h2: "wf_node locked_fs"
    by (simp add: locked_fs_def)
  have w: "os_walk locked_fs [''src''] = [([''src''], [''priv''], [''a.txt''])]"
    by (simp add: os_walk_def locked_fs_def)
  have g: "get_changes locked_fs [''src''] [''dst''] = (locked_fs, Inr ([''/dst/./a.txt''], [], 5))"
    by (simp add: get_changes_def w changes_dir_def change_step_def os_path_relpath_def Let_def)
       (simp add: locked_fs_def os_path_exists_def os_path_getsize_def pstr_def)
  have h3: "resolve locked_fs [''src'', ''priv'']
        = Some (Dir ''priv'' 3 False [File ''key'' 4 ''secret'' True])"
    by (simp add: locked_fs_def)
  have h4: "os_path_exists locked_fs ([''src''] @ [''a.txt''])"
    by (simp add: locked_fs_def os_path_exists_def)
  show ?thesis
    using h1 h2 h3 h4 w g diff_never_fails[of locked_fs "[''nosrc'']" "[''dst'']"]
      diff_never_fails[of locked_fs "[''src'']" "[''dst'']" "[''src'', ''priv'']" "''priv''" 3
        "[File ''key'' 4 ''secret'' True]" "[''src'']" "[''priv'']" "[''a.txt'']"]
    by (simp add: locked_fs_def)
qed

subsection \<open>Errors of a pass\<close>








subsection \<open>A copy that fails\<close>









subsection \<open>Progress signals of a pass\<close>











end
